theory Spec2Isabelle
  imports Main "HOL-Library.Extended_Nat" "HOL-Library.Multiset"
begin

section \<open>Data model\<close>

text \<open>
  An element is an opaque value of type \<open>'a\<close>; two elements are the same reference exactly
  when they are equal. \<open>T | null\<close> is \<open>'a option\<close>, with \<open>None\<close> the root sentinel.

  \<open>ITreeElement<T>\<close>: a candidate description. The optional fields \<open>collapsible?\<close> and
  \<open>collapsed?\<close> are options; an absent \<open>children\<close> sequence is the empty list.
\<close>

datatype 'a tree_element =
  TreeElement (el_element: 'a) (el_collapsible: "bool option") (el_collapsed: "bool option")
    (el_children: "'a tree_element list")

text \<open>
  \<open>ITreeNode<T>\<close>: a node of the index tree engine. Nodes are objects, so the two lookup
  maps of the model hold references to them; \<open>nid\<close> is that reference. Render counts and
  filter data are opaque to the object tree model and are left out.
\<close>

datatype 'e node =
  Node (nid: nat) (element: 'e) (collapsible: bool) (collapsed: bool) (children: "'e node list")

text \<open>\<open>TreeError(user, message)\<close>, the only error class the model raises.\<close>

datatype 'a message =
  ElementNotFound 'a
  | InvalidGetParentNodeLocationCall
  | InvalidTreeLocation

datatype 'a tree_error = TreeError string "'a message"

section \<open>The index tree engine\<close>

text \<open>
  Modelled from the spec: \<open>IndexTreeModel\<close> (vs/base/browser/ui/tree/indexTreeModel) is not
  among the sources. The spec gives its contract: it owns the tree, addressed by paths of
  child indices with the empty path for the root; \<open>splice\<close> replaces a run of children at a
  path by nodes built from a sequence of descriptions and reports every deleted and every
  created node to the two callbacks; \<open>getNode\<close>, \<open>getNodeLocation\<close>,
  \<open>getParentNodeLocation\<close>, \<open>isCollapsible\<close> and \<open>isCollapsed\<close> read the structure.

  The spec fixes the order "deletions of subtree nodes being replaced, then creations of
  new nodes" and also asks that the staging sets tolerate either order, so the order is a
  parameter of the engine. What a new node gets for a flag its description leaves out is
  not said; the two defaults are parameters too.
\<close>

datatype callback_order = DeletionsFirst | CreationsFirst

record 'a index_tree_model =
  root_children :: "'a node list"
  next_nid :: nat
  default_collapsible :: bool
  default_collapsed :: bool
  callback_order :: callback_order

text \<open>A node with all its descendants, parents before children, siblings left to right.\<close>

primrec subtree :: "'e node \<Rightarrow> 'e node list" where
  "subtree (Node i e cb cd cs) = Node i e cb cd cs # concat (map subtree cs)"

definition forest :: "'e node list \<Rightarrow> 'e node list" where
  "forest cs = concat (map subtree cs)"

text \<open>The children found by walking a path down from a list of siblings.\<close>

fun children_at :: "'e node list \<Rightarrow> nat list \<Rightarrow> 'e node list option" where
  "children_at cs [] = Some cs"
| "children_at cs (i # p) = (if i < length cs then children_at (children (cs ! i)) p else None)"

fun node_at :: "'e node list \<Rightarrow> nat list \<Rightarrow> 'e node option" where
  "node_at cs [] = None"
| "node_at cs [i] = (if i < length cs then Some (cs ! i) else None)"
| "node_at cs (i # j # p) = (if i < length cs then node_at (children (cs ! i)) (j # p) else None)"

text \<open>The root sentinel: the node the engine was constructed with, carrying \<open>null\<close>.\<close>

definition root_node :: "'a index_tree_model \<Rightarrow> 'a option node" where
  "root_node eng = Node 0 None False False (map (map_node Some) (root_children eng))"

definition engine_getNode :: "'a index_tree_model \<Rightarrow> nat list \<Rightarrow> 'a option node option" where
  "engine_getNode eng location =
     (if location = [] then Some (root_node eng)
      else map_option (map_node Some) (node_at (root_children eng) location))"

text \<open>The path of the node with a given reference, searched for from the root.\<close>

fun find_path :: "nat \<Rightarrow> 'e node \<Rightarrow> nat list option"
  and find_path_list :: "nat \<Rightarrow> nat \<Rightarrow> 'e node list \<Rightarrow> nat list option" where
  "find_path k (Node i e cb cd cs) = (if i = k then Some [] else find_path_list k 0 cs)"
| "find_path_list k j [] = None"
| "find_path_list k j (c # cs) =
     (case find_path k c of Some p \<Rightarrow> Some (j # p) | None \<Rightarrow> find_path_list k (Suc j) cs)"

definition engine_getNodeLocation :: "'a index_tree_model \<Rightarrow> nat \<Rightarrow> nat list option" where
  "engine_getNodeLocation eng k = (if k = 0 then Some [] else find_path_list k 0 (root_children eng))"

definition engine_getParentNodeLocation :: "nat list \<Rightarrow> nat list option" where
  "engine_getParentNodeLocation location = (if location = [] then None else Some (butlast location))"

definition engine_isCollapsible :: "'a index_tree_model \<Rightarrow> nat list \<Rightarrow> bool option" where
  "engine_isCollapsible eng location = map_option collapsible (engine_getNode eng location)"

definition engine_isCollapsed :: "'a index_tree_model \<Rightarrow> nat list \<Rightarrow> bool option" where
  "engine_isCollapsed eng location = map_option collapsed (engine_getNode eng location)"

text \<open>The node a reference points at.\<close>

definition deref :: "'a index_tree_model \<Rightarrow> nat \<Rightarrow> 'a node option" where
  "deref eng k = find (\<lambda>n. nid n = k) (forest (root_children eng))"

text \<open>
  Building nodes from descriptions. References are handed out in the order parents before
  children, siblings left to right, starting at the engine's next free reference.
\<close>

primrec count_elements :: "'a tree_element \<Rightarrow> nat" where
  "count_elements (TreeElement e cb cd ch) = Suc (sum_list (map count_elements ch))"

fun createTreeNode :: "bool \<Rightarrow> bool \<Rightarrow> nat \<Rightarrow> 'a tree_element \<Rightarrow> 'a node"
  and createTreeNodes :: "bool \<Rightarrow> bool \<Rightarrow> nat \<Rightarrow> 'a tree_element list \<Rightarrow> 'a node list" where
  "createTreeNode dcb dcd k (TreeElement e cb cd ch) =
     Node k e (case cb of Some b \<Rightarrow> b | None \<Rightarrow> dcb) (case cd of Some b \<Rightarrow> b | None \<Rightarrow> dcd)
       (createTreeNodes dcb dcd (Suc k) ch)"
| "createTreeNodes dcb dcd k [] = []"
| "createTreeNodes dcb dcd k (d # ds) =
     createTreeNode dcb dcd k d # createTreeNodes dcb dcd (k + count_elements d) ds"

text \<open>Putting a new list of children below the node at a path.\<close>

fun replace_children :: "nat list \<Rightarrow> 'e node list \<Rightarrow> 'e node list \<Rightarrow> 'e node list" where
  "replace_children [] new cs = new"
| "replace_children (i # p) new cs =
     (if i < length cs
      then cs[i := Node (nid (cs ! i)) (element (cs ! i)) (collapsible (cs ! i)) (collapsed (cs ! i))
                    (replace_children p new (children (cs ! i)))]
      else cs)"

text \<open>
  \<open>splice(location, deleteCount, toInsert, onDidCreateNode, onDidDeleteNode)\<close>. The last
  index of the location is where the run starts in the children of the node at the rest of
  the location. The callbacks are state transformers on whatever state they close over; the
  sequence \<open>toInsert\<close> is consumed completely before the first callback runs.
\<close>

definition splice ::
  "'a index_tree_model \<Rightarrow> nat list \<Rightarrow> enat \<Rightarrow> 'a tree_element list \<Rightarrow>
   ('a node \<Rightarrow> 's \<Rightarrow> 's) \<Rightarrow> ('a node \<Rightarrow> 's \<Rightarrow> 's) \<Rightarrow> 's \<Rightarrow> ('a index_tree_model \<times> 's) option" where
  "splice eng location deleteCount toInsert onDidCreateNode onDidDeleteNode s =
     (if location = [] then None
      else
        (case children_at (root_children eng) (butlast location) of
           None \<Rightarrow> None
         | Some cs \<Rightarrow>
             let index = last location;
                 count = (case deleteCount of enat c \<Rightarrow> min c (length cs - index)
                          | \<infinity> \<Rightarrow> length cs - index);
                 deletedNodes = take count (drop index cs);
                 nodesToInsert = createTreeNodes (default_collapsible eng) (default_collapsed eng)
                                   (next_nid eng) toInsert;
                 cs' = take index cs @ nodesToInsert @ drop (index + count) cs;
                 s' = (case callback_order eng of
                         DeletionsFirst \<Rightarrow>
                           fold onDidCreateNode (forest nodesToInsert)
                             (fold onDidDeleteNode (forest deletedNodes) s)
                       | CreationsFirst \<Rightarrow>
                           fold onDidDeleteNode (forest deletedNodes)
                             (fold onDidCreateNode (forest nodesToInsert) s))
             in Some (eng\<lparr>root_children := replace_children (butlast location) cs' (root_children eng),
                          next_nid := next_nid eng + length (forest nodesToInsert)\<rparr>, s')))"

text \<open>
  The engine operations whose results no property below depends on are parameters of the
  wrappers that call them.
\<close>

record 'a engine_ops =
  eng_rerender :: "nat list \<Rightarrow> 'a index_tree_model \<Rightarrow> 'a index_tree_model option"
  eng_setCollapsible :: "nat list \<Rightarrow> bool option \<Rightarrow> 'a index_tree_model \<Rightarrow> (bool \<times> 'a index_tree_model) option"
  eng_setCollapsed :: "nat list \<Rightarrow> bool option \<Rightarrow> bool option \<Rightarrow> 'a index_tree_model \<Rightarrow> (bool \<times> 'a index_tree_model) option"
  eng_expandTo :: "nat list \<Rightarrow> 'a index_tree_model \<Rightarrow> 'a index_tree_model option"
  eng_getListIndex :: "nat list \<Rightarrow> 'a index_tree_model \<Rightarrow> int option"
  eng_getListRenderCount :: "nat list \<Rightarrow> 'a index_tree_model \<Rightarrow> nat option"
  eng_getFirstElementChild :: "nat list \<Rightarrow> 'a index_tree_model \<Rightarrow> 'a option option option"
  eng_getLastElementAncestor :: "nat list \<Rightarrow> 'a index_tree_model \<Rightarrow> 'a option option option"

section \<open>Sorting\<close>

text \<open>
  Modelled from the spec: \<open>mergeSort\<close> (vs/base/common/arrays) is not among the sources; the
  spec says that it is a stable sort in which ties preserve input order. It is modelled as
  the top-down merge sort that takes from the right run only what is strictly smaller.
\<close>

fun merge_runs :: "('x \<Rightarrow> 'x \<Rightarrow> int) \<Rightarrow> 'x list \<Rightarrow> 'x list \<Rightarrow> 'x list" where
  "merge_runs c [] ys = ys"
| "merge_runs c (x # xs) [] = x # xs"
| "merge_runs c (x # xs) (y # ys) =
     (if c y x < 0 then y # merge_runs c (x # xs) ys else x # merge_runs c xs (y # ys))"

function mergeSort :: "('x \<Rightarrow> 'x \<Rightarrow> int) \<Rightarrow> 'x list \<Rightarrow> 'x list" where
  "mergeSort c xs =
     (if length xs \<le> 1 then xs
      else merge_runs c (mergeSort c (take (length xs div 2) xs))
                        (mergeSort c (drop (length xs div 2) xs)))"
  by pat_completeness auto
termination
  by (relation "measure (\<lambda>(c, xs). length xs)") auto

declare mergeSort.simps [simp del]

text \<open>
  \<open>Array.prototype.sort\<close> with a comparison function is stable (ECMAScript 2019): the
  stable insertion sort, which puts an element in front of the first one that does not
  come before it.
\<close>

fun insert_sorted :: "('x \<Rightarrow> 'x \<Rightarrow> int) \<Rightarrow> 'x \<Rightarrow> 'x list \<Rightarrow> 'x list" where
  "insert_sorted c x [] = [x]"
| "insert_sorted c x (y # ys) = (if c y x < 0 then y # insert_sorted c x ys else x # y # ys)"

definition array_sort :: "('x \<Rightarrow> 'x \<Rightarrow> int) \<Rightarrow> 'x list \<Rightarrow> 'x list" where
  "array_sort c xs = foldr (insert_sorted c) xs []"

section \<open>The object tree model\<close>

record 'a object_tree_model =
  user :: string
  model :: "'a index_tree_model"
  nodes :: "'a \<rightharpoonup> nat"
  nodesByIdentity :: "string \<rightharpoonup> nat"
  identityProvider :: "('a \<Rightarrow> string) option"
  sorter :: "('a \<Rightarrow> 'a \<Rightarrow> int) option"

text \<open>\<open>size\<close>: the number of entries of the element index.\<close>

definition size_of :: "'a object_tree_model \<Rightarrow> nat" where
  "size_of m = card (dom (nodes m))"

text \<open>
  The constructor: an engine with the root sentinel only and both indices empty. The
  sorter of the options compares elements; the wrapper of the source applies it to the
  \<open>element\<close> fields of what is sorted, which the two places that sort do here.
\<close>

definition new_model ::
  "string \<Rightarrow> bool \<Rightarrow> bool \<Rightarrow> callback_order \<Rightarrow> ('a \<Rightarrow> 'a \<Rightarrow> int) option \<Rightarrow> ('a \<Rightarrow> string) option \<Rightarrow>
   'a object_tree_model" where
  "new_model usr dcb dcd ord srt idp =
     \<lparr>user = usr,
      model = \<lparr>root_children = [], next_nid = 1, default_collapsible = dcb,
               default_collapsed = dcd, callback_order = ord\<rparr>,
      nodes = Map.empty, nodesByIdentity = Map.empty, identityProvider = idp, sorter = srt\<rparr>"

text \<open>
  \<open>getElementLocation\<close>: the root sentinel is the empty path; any other element is looked up
  in the element index and the engine gives the path of its node.
\<close>

definition getElementLocation :: "'a object_tree_model \<Rightarrow> 'a option \<Rightarrow> 'a tree_error + nat list" where
  "getElementLocation m el =
     (case el of
        None \<Rightarrow> Inr []
      | Some e \<Rightarrow>
          (case nodes m e of
             None \<Rightarrow> Inl (TreeError (user m) (ElementNotFound e))
           | Some k \<Rightarrow>
               (case engine_getNodeLocation (model m) k of
                  None \<Rightarrow> Inl (TreeError (user m) InvalidTreeLocation)
                | Some location \<Rightarrow> Inr location)))"

text \<open>What an engine call that raises, or returns, gives the caller of a wrapper.\<close>

definition engine_result :: "'a object_tree_model \<Rightarrow> 'r option \<Rightarrow> 'a tree_error + 'r" where
  "engine_result m r = (case r of None \<Rightarrow> Inl (TreeError (user m) InvalidTreeLocation) | Some v \<Rightarrow> Inr v)"

definition engine_update ::
  "'a object_tree_model \<Rightarrow> 'a index_tree_model option \<Rightarrow> ('a tree_error + unit) \<times> 'a object_tree_model" where
  "engine_update m r =
     (case r of None \<Rightarrow> (Inl (TreeError (user m) InvalidTreeLocation), m)
      | Some eng \<Rightarrow> (Inr (), m\<lparr>model := eng\<rparr>))"

definition engine_update_result ::
  "'a object_tree_model \<Rightarrow> ('r \<times> 'a index_tree_model) option \<Rightarrow> ('a tree_error + 'r) \<times> 'a object_tree_model" where
  "engine_update_result m r =
     (case r of None \<Rightarrow> (Inl (TreeError (user m) InvalidTreeLocation), m)
      | Some (v, eng) \<Rightarrow> (Inr v, m\<lparr>model := eng\<rparr>))"

subsection \<open>Queries\<close>

definition has :: "'a object_tree_model \<Rightarrow> 'a option \<Rightarrow> bool" where
  "has m el = (case el of None \<Rightarrow> False | Some e \<Rightarrow> nodes m e \<noteq> None)"

definition isCollapsible :: "'a object_tree_model \<Rightarrow> 'a option \<Rightarrow> 'a tree_error + bool" where
  "isCollapsible m el =
     (case getElementLocation m el of
        Inl err \<Rightarrow> Inl err
      | Inr location \<Rightarrow> engine_result m (engine_isCollapsible (model m) location))"

definition isCollapsed :: "'a object_tree_model \<Rightarrow> 'a option \<Rightarrow> 'a tree_error + bool" where
  "isCollapsed m el =
     (case getElementLocation m el of
        Inl err \<Rightarrow> Inl err
      | Inr location \<Rightarrow> engine_result m (engine_isCollapsed (model m) location))"

definition getListIndex :: "'a engine_ops \<Rightarrow> 'a object_tree_model \<Rightarrow> 'a option \<Rightarrow> 'a tree_error + int" where
  "getListIndex ops m el =
     (case getElementLocation m el of
        Inl err \<Rightarrow> Inl err
      | Inr location \<Rightarrow> engine_result m (eng_getListIndex ops location (model m)))"

definition getListRenderCount :: "'a engine_ops \<Rightarrow> 'a object_tree_model \<Rightarrow> 'a option \<Rightarrow> 'a tree_error + nat" where
  "getListRenderCount ops m el =
     (case getElementLocation m el of
        Inl err \<Rightarrow> Inl err
      | Inr location \<Rightarrow> engine_result m (eng_getListRenderCount ops location (model m)))"

definition getFirstElementChild ::
  "'a engine_ops \<Rightarrow> 'a object_tree_model \<Rightarrow> 'a option \<Rightarrow> 'a tree_error + 'a option option" where
  "getFirstElementChild ops m ref =
     (case getElementLocation m ref of
        Inl err \<Rightarrow> Inl err
      | Inr location \<Rightarrow> engine_result m (eng_getFirstElementChild ops location (model m)))"

definition getLastElementAncestor ::
  "'a engine_ops \<Rightarrow> 'a object_tree_model \<Rightarrow> 'a option \<Rightarrow> 'a tree_error + 'a option option" where
  "getLastElementAncestor ops m ref =
     (case getElementLocation m ref of
        Inl err \<Rightarrow> Inl err
      | Inr location \<Rightarrow> engine_result m (eng_getLastElementAncestor ops location (model m)))"

text \<open>
  \<open>getNode\<close> returns the root sentinel for \<open>null\<close> and otherwise the node the element index
  holds; \<open>getNodeLocation\<close> is the element of a node.
\<close>

definition getNode :: "'a object_tree_model \<Rightarrow> 'a option \<Rightarrow> 'a tree_error + 'a option node" where
  "getNode m el =
     (case el of
        None \<Rightarrow> engine_result m (engine_getNode (model m) [])
      | Some e \<Rightarrow>
          (case nodes m e of
             None \<Rightarrow> Inl (TreeError (user m) (ElementNotFound e))
           | Some k \<Rightarrow> engine_result m (map_option (map_node Some) (deref (model m) k))))"

definition getNodeLocation :: "'a option node \<Rightarrow> 'a option" where
  "getNodeLocation n = element n"

definition getParentNodeLocation :: "'a object_tree_model \<Rightarrow> 'a option \<Rightarrow> 'a tree_error + 'a option" where
  "getParentNodeLocation m el =
     (case el of
        None \<Rightarrow> Inl (TreeError (user m) InvalidGetParentNodeLocationCall)
      | Some e \<Rightarrow>
          (case nodes m e of
             None \<Rightarrow> Inl (TreeError (user m) (ElementNotFound e))
           | Some k \<Rightarrow>
               (case engine_getNodeLocation (model m) k of
                  None \<Rightarrow> Inl (TreeError (user m) InvalidTreeLocation)
                | Some location \<Rightarrow>
                    (case engine_getParentNodeLocation location of
                       None \<Rightarrow> Inl (TreeError (user m) InvalidTreeLocation)
                     | Some parentLocation \<Rightarrow>
                         (case engine_getNode (model m) parentLocation of
                            None \<Rightarrow> Inl (TreeError (user m) InvalidTreeLocation)
                          | Some parent \<Rightarrow> Inr (element parent))))))"

subsection \<open>Updates that are passed to the engine\<close>

definition rerender ::
  "'a engine_ops \<Rightarrow> 'a option \<Rightarrow> 'a object_tree_model \<Rightarrow> ('a tree_error + unit) \<times> 'a object_tree_model" where
  "rerender ops el m =
     (case getElementLocation m el of
        Inl err \<Rightarrow> (Inl err, m)
      | Inr location \<Rightarrow> engine_update m (eng_rerender ops location (model m)))"

definition setCollapsible ::
  "'a engine_ops \<Rightarrow> 'a option \<Rightarrow> bool option \<Rightarrow> 'a object_tree_model \<Rightarrow>
   ('a tree_error + bool) \<times> 'a object_tree_model" where
  "setCollapsible ops el cb m =
     (case getElementLocation m el of
        Inl err \<Rightarrow> (Inl err, m)
      | Inr location \<Rightarrow> engine_update_result m (eng_setCollapsible ops location cb (model m)))"

definition setCollapsed ::
  "'a engine_ops \<Rightarrow> 'a option \<Rightarrow> bool option \<Rightarrow> bool option \<Rightarrow> 'a object_tree_model \<Rightarrow>
   ('a tree_error + bool) \<times> 'a object_tree_model" where
  "setCollapsed ops el cd recursive m =
     (case getElementLocation m el of
        Inl err \<Rightarrow> (Inl err, m)
      | Inr location \<Rightarrow> engine_update_result m (eng_setCollapsed ops location cd recursive (model m)))"

definition expandTo ::
  "'a engine_ops \<Rightarrow> 'a option \<Rightarrow> 'a object_tree_model \<Rightarrow> ('a tree_error + unit) \<times> 'a object_tree_model" where
  "expandTo ops el m =
     (case getElementLocation m el of
        Inl err \<Rightarrow> (Inl err, m)
      | Inr location \<Rightarrow> engine_update m (eng_expandTo ops location (model m)))"

subsection \<open>Replacing children\<close>

text \<open>
  The state the two callbacks of \<open>_setChildren\<close> close over: the two indices of the model,
  the two staging sets of the call, and the state of the caller's own callbacks.
\<close>

record ('a, 'u) splice_state =
  st_nodes :: "'a \<rightharpoonup> nat"
  st_nodesByIdentity :: "string \<rightharpoonup> nat"
  insertedElements :: "'a set"
  insertedElementIds :: "string set"
  st_user :: 'u

definition priv_onDidCreateNode ::
  "('a \<Rightarrow> string) option \<Rightarrow> ('a node \<Rightarrow> 'u \<Rightarrow> 'u) option \<Rightarrow> 'a node \<Rightarrow>
   ('a, 'u) splice_state \<Rightarrow> ('a, 'u) splice_state" where
  "priv_onDidCreateNode idp onDidCreateNode n s =
     (let s1 = s\<lparr>insertedElements := insert (element n) (insertedElements s),
                 st_nodes := (st_nodes s)(element n \<mapsto> nid n)\<rparr>;
          s2 = (case idp of
                  None \<Rightarrow> s1
                | Some getId \<Rightarrow>
                    s1\<lparr>insertedElementIds := insert (getId (element n)) (insertedElementIds s1),
                       st_nodesByIdentity := (st_nodesByIdentity s1)(getId (element n) \<mapsto> nid n)\<rparr>)
      in (case onDidCreateNode of
            None \<Rightarrow> s2
          | Some callback \<Rightarrow> s2\<lparr>st_user := callback n (st_user s2)\<rparr>))"

definition priv_onDidDeleteNode ::
  "('a \<Rightarrow> string) option \<Rightarrow> ('a node \<Rightarrow> 'u \<Rightarrow> 'u) option \<Rightarrow> 'a node \<Rightarrow>
   ('a, 'u) splice_state \<Rightarrow> ('a, 'u) splice_state" where
  "priv_onDidDeleteNode idp onDidDeleteNode n s =
     (let s1 = (if element n \<notin> insertedElements s
                then s\<lparr>st_nodes := (st_nodes s)(element n := None)\<rparr> else s);
          s2 = (case idp of
                  None \<Rightarrow> s1
                | Some getId \<Rightarrow>
                    (if getId (element n) \<notin> insertedElementIds s1
                     then s1\<lparr>st_nodesByIdentity := (st_nodesByIdentity s1)(getId (element n) := None)\<rparr>
                     else s1))
      in (case onDidDeleteNode of
            None \<Rightarrow> s2
          | Some callback \<Rightarrow> s2\<lparr>st_user := callback n (st_user s2)\<rparr>))"

text \<open>
  \<open>_setChildren\<close>: fresh staging sets, then one splice at \<open>[...location, 0]\<close> that removes
  every child. \<open>Number.MAX_VALUE\<close> is larger than the length of any array; the count is
  \<open>\<infinity>\<close> here.
\<close>

definition priv_setChildren ::
  "nat list \<Rightarrow> 'a tree_element list \<Rightarrow> ('a node \<Rightarrow> 'u \<Rightarrow> 'u) option \<Rightarrow> ('a node \<Rightarrow> 'u \<Rightarrow> 'u) option \<Rightarrow>
   'a object_tree_model \<times> 'u \<Rightarrow> ('a tree_error + unit) \<times> 'a object_tree_model \<times> 'u" where
  "priv_setChildren location chn onDidCreateNode onDidDeleteNode mu =
     (let m = fst mu;
          s0 = \<lparr>st_nodes = nodes m, st_nodesByIdentity = nodesByIdentity m,
                insertedElements = {}, insertedElementIds = {}, st_user = snd mu\<rparr>
      in (case splice (model m) (location @ [0]) \<infinity> chn
                 (priv_onDidCreateNode (identityProvider m) onDidCreateNode)
                 (priv_onDidDeleteNode (identityProvider m) onDidDeleteNode) s0 of
            None \<Rightarrow> (Inl (TreeError (user m) InvalidTreeLocation), m, snd mu)
          | Some (eng, s) \<Rightarrow>
              (Inr (), m\<lparr>model := eng, nodes := st_nodes s, nodesByIdentity := st_nodesByIdentity s\<rparr>,
               st_user s)))"

text \<open>
  The node \<open>preserveCollapseState\<close> finds for an element: by reference in the element index
  and, when that has no entry and an identity provider is configured, by identity key.
\<close>

definition existing_node :: "'a object_tree_model \<Rightarrow> 'a \<Rightarrow> 'a node option" where
  "existing_node m e =
     (case nodes m e of
        Some k \<Rightarrow> deref (model m) k
      | None \<Rightarrow>
          (case identityProvider m of
             None \<Rightarrow> None
           | Some getId \<Rightarrow>
               (case nodesByIdentity m (getId e) of
                  None \<Rightarrow> None
                | Some k \<Rightarrow> deref (model m) k)))"

lemma set_merge_runs [simp]: "set (merge_runs c xs ys) = set xs \<union> set ys"
  by (induction c xs ys rule: merge_runs.induct) auto

lemma set_mergeSort [simp]: "set (mergeSort c xs) = set xs"
proof (induction c xs rule: mergeSort.induct)
  case (1 c xs)
  show ?case
  proof (cases "length xs \<le> 1")
    case True
    then show ?thesis by (simp add: mergeSort.simps)
  next
    case False
    have "set (take (length xs div 2) xs) \<union> set (drop (length xs div 2) xs) = set xs"
      by (metis append_take_drop_id set_append)
    with False 1 show ?thesis
      by (subst mergeSort.simps) simp
  qed
qed

lemma set_insert_sorted [simp]: "set (insert_sorted c x ys) = insert x (set ys)"
  by (induction ys) auto

lemma set_array_sort [simp]: "set (array_sort c xs) = set xs"
  by (induction xs) (auto simp: array_sort_def)

lemma el_children_smaller:
  "te \<in> set xs \<Longrightarrow> size_list size (el_children te) < size_list size xs"
proof -
  assume "te \<in> set xs"
  then have "size te \<le> size_list size xs"
    by (simp add: size_list_estimation')
  moreover have "size_list size (el_children te) < size te"
    by (cases te) simp
  ultimately show ?thesis by simp
qed

lemma children_smaller:
  "n \<in> set cs \<Longrightarrow> size_list size (children n) < size_list size cs"
proof -
  assume "n \<in> set cs"
  then have "size n \<le> size_list size cs"
    by (simp add: size_list_estimation')
  moreover have "size_list size (children n) < size n"
    by (cases n) simp
  ultimately show ?thesis by simp
qed

text \<open>
  \<open>preserveCollapseState\<close>: sort the candidates when a sorter is configured, then give each
  candidate that has an existing node the flags of its description or else of that node, and
  do the same to its children. The argument of a call with \<open>undefined\<close> is the empty list
  (see \<open>sequence_of\<close>).
\<close>

definition sequence_of :: "'x list option \<Rightarrow> 'x list" where
  "sequence_of elements = (case elements of None \<Rightarrow> [] | Some xs \<Rightarrow> xs)"

function preserveCollapseState :: "'a object_tree_model \<Rightarrow> 'a tree_element list \<Rightarrow> 'a tree_element list" where
  "preserveCollapseState m elements =
     map (\<lambda>treeElement.
            (case existing_node m (el_element treeElement) of
               None \<Rightarrow>
                 TreeElement (el_element treeElement) (el_collapsible treeElement)
                   (el_collapsed treeElement)
                   (preserveCollapseState m (el_children treeElement))
             | Some n \<Rightarrow>
                 TreeElement (el_element treeElement)
                   (Some (case el_collapsible treeElement of Some b \<Rightarrow> b | None \<Rightarrow> collapsible n))
                   (Some (case el_collapsed treeElement of Some b \<Rightarrow> b | None \<Rightarrow> collapsed n))
                   (preserveCollapseState m (el_children treeElement))))
       (case sorter m of
          None \<Rightarrow> elements
        | Some cmp \<Rightarrow> mergeSort (\<lambda>a b. cmp (el_element a) (el_element b)) elements)"
  by pat_completeness auto
termination
  by (relation "measure (\<lambda>(m, xs). size_list size xs)")
     (auto split: option.splits intro: el_children_smaller)

declare preserveCollapseState.simps [simp del]

definition setChildren ::
  "'a option \<Rightarrow> 'a tree_element list option \<Rightarrow> ('a node \<Rightarrow> 'u \<Rightarrow> 'u) option \<Rightarrow>
   ('a node \<Rightarrow> 'u \<Rightarrow> 'u) option \<Rightarrow> 'a object_tree_model \<times> 'u \<Rightarrow>
   ('a tree_error + unit) \<times> 'a object_tree_model \<times> 'u" where
  "setChildren el chn onDidCreateNode onDidDeleteNode mu =
     (case getElementLocation (fst mu) el of
        Inl err \<Rightarrow> (Inl err, fst mu, snd mu)
      | Inr location \<Rightarrow>
          priv_setChildren location (preserveCollapseState (fst mu) (sequence_of chn))
            onDidCreateNode onDidDeleteNode mu)"

subsection \<open>Resorting\<close>

text \<open>
  \<open>resortChildren\<close>, on the children of the node it is called with: sorted at the first
  level or when recursive, then described with the flags the nodes have now.
\<close>

function resortChildren ::
  "('a \<Rightarrow> 'a \<Rightarrow> int) \<Rightarrow> 'a node list \<Rightarrow> bool \<Rightarrow> bool \<Rightarrow> 'a tree_element list" where
  "resortChildren cmp childrenNodes recursive first =
     map (\<lambda>n. TreeElement (element n) (Some (collapsible n)) (Some (collapsed n))
                (resortChildren cmp (children n) recursive False))
       (if recursive \<or> first
        then array_sort (\<lambda>a b. cmp (element a) (element b)) childrenNodes
        else childrenNodes)"
  by pat_completeness auto
termination
  by (relation "measure (\<lambda>(cmp, cs, r, f). size_list size cs)")
     (auto split: if_splits intro: children_smaller)

declare resortChildren.simps [simp del]

definition resort ::
  "'a option \<Rightarrow> bool \<Rightarrow> 'a object_tree_model \<Rightarrow> ('a tree_error + unit) \<times> 'a object_tree_model" where
  "resort el recursive m =
     (case sorter m of
        None \<Rightarrow> (Inr (), m)
      | Some cmp \<Rightarrow>
          (case getElementLocation m el of
             Inl err \<Rightarrow> (Inl err, m)
           | Inr location \<Rightarrow>
               (case children_at (root_children (model m)) location of
                  None \<Rightarrow> (Inl (TreeError (user m) InvalidTreeLocation), m)
                | Some childrenNodes \<Rightarrow>
                    (let r = priv_setChildren location (resortChildren cmp childrenNodes recursive True)
                               None None (m, ())
                     in (fst r, fst (snd r))))))"

section \<open>Notions for stating the properties\<close>

fun node_below :: "'e node \<Rightarrow> nat list \<Rightarrow> 'e node option" where
  "node_below c p = (if p = [] then Some c else node_at (children c) p)"

primrec el_subtree :: "'a tree_element \<Rightarrow> 'a tree_element list" where
  "el_subtree (TreeElement e cb cd ch) = TreeElement e cb cd ch # concat (map el_subtree ch)"

definition el_forest :: "'a tree_element list \<Rightarrow> 'a tree_element list" where
  "el_forest ds = concat (map el_subtree ds)"

primrec describe :: "'a node \<Rightarrow> 'a tree_element" where
  "describe (Node i e cb cd cs) = TreeElement e (Some cb) (Some cd) (map describe cs)"

definition node_flags :: "'e node \<Rightarrow> 'e \<times> bool \<times> bool" where
  "node_flags n = (element n, collapsible n, collapsed n)"

definition filled :: "bool \<Rightarrow> bool \<Rightarrow> 'a tree_element \<Rightarrow> 'a \<times> bool \<times> bool" where
  "filled dcb dcd d =
     (el_element d, (case el_collapsible d of Some b \<Rightarrow> b | None \<Rightarrow> dcb),
      (case el_collapsed d of Some b \<Rightarrow> b | None \<Rightarrow> dcd))"

definition node_label :: "'e node \<Rightarrow> nat \<times> 'e \<times> bool \<times> bool" where
  "node_label n = (nid n, element n, collapsible n, collapsed n)"

definition index_after ::
  "('a node \<Rightarrow> 'k) \<Rightarrow> 'a node list \<Rightarrow> 'a node list \<Rightarrow> ('k \<rightharpoonup> nat) \<Rightarrow> ('k \<rightharpoonup> nat)" where
  "index_after key created deleted base k =
     (case find (\<lambda>n. key n = k) (rev created) of
        Some n \<Rightarrow> Some (nid n)
      | None \<Rightarrow> if k \<in> key ` set deleted then None else base k)"

definition callback_of :: "('a node \<Rightarrow> 'u \<Rightarrow> 'u) option \<Rightarrow> 'a node \<Rightarrow> 'u \<Rightarrow> 'u" where
  "callback_of cb = (case cb of None \<Rightarrow> (\<lambda>n u. u) | Some g \<Rightarrow> g)"

definition user_after ::
  "callback_order \<Rightarrow> ('a node \<Rightarrow> 'u \<Rightarrow> 'u) option \<Rightarrow> ('a node \<Rightarrow> 'u \<Rightarrow> 'u) option \<Rightarrow>
   'a node list \<Rightarrow> 'a node list \<Rightarrow> 'u \<Rightarrow> 'u" where
  "user_after ord onCreate onDelete created deleted u =
     (case ord of
        DeletionsFirst \<Rightarrow> fold (callback_of onCreate) created (fold (callback_of onDelete) deleted u)
      | CreationsFirst \<Rightarrow> fold (callback_of onDelete) deleted (fold (callback_of onCreate) created u))"

definition new_nodes :: "'a object_tree_model \<Rightarrow> 'a tree_element list \<Rightarrow> 'a node list" where
  "new_nodes m chn =
     createTreeNodes (default_collapsible (model m)) (default_collapsed (model m)) (next_nid (model m)) chn"

definition well_formed :: "'a object_tree_model \<Rightarrow> bool" where
  "well_formed m \<longleftrightarrow>
     0 < next_nid (model m) \<and>
     distinct (map nid (forest (root_children (model m)))) \<and>
     (\<forall>n \<in> set (forest (root_children (model m))). 0 < nid n \<and> nid n < next_nid (model m)) \<and>
     (\<forall>e k. nodes m e = Some k \<longrightarrow>
        (\<exists>n \<in> set (forest (root_children (model m))). nid n = k \<and> element n = e))"

definition spliced ::
  "'a object_tree_model \<Rightarrow> nat list \<Rightarrow> 'a node list \<Rightarrow> 'a tree_element list \<Rightarrow> 'a object_tree_model" where
  "spliced m location cs chn =
     m\<lparr>model := (model m)\<lparr>root_children := replace_children location (new_nodes m chn) (root_children (model m)),
                           next_nid := next_nid (model m) + length (forest (new_nodes m chn))\<rparr>,
       nodes := index_after element (forest (new_nodes m chn)) (forest cs) (nodes m),
       nodesByIdentity :=
         (case identityProvider m of
            None \<Rightarrow> nodesByIdentity m
          | Some getId \<Rightarrow>
              index_after (\<lambda>n. getId (element n)) (forest (new_nodes m chn)) (forest cs) (nodesByIdentity m))\<rparr>"

definition el_key :: "'a tree_element \<Rightarrow> 'a \<times> bool option \<times> bool option" where
  "el_key d = (el_element d, el_collapsible d, el_collapsed d)"

definition reconciled :: "'a object_tree_model \<Rightarrow> 'a tree_element \<Rightarrow> 'a \<times> bool option \<times> bool option" where
  "reconciled m d =
     (case existing_node m (el_element d) of
        None \<Rightarrow> (el_element d, el_collapsible d, el_collapsed d)
      | Some n \<Rightarrow>
          (el_element d,
           Some (case el_collapsible d of Some b \<Rightarrow> b | None \<Rightarrow> collapsible n),
           Some (case el_collapsed d of Some b \<Rightarrow> b | None \<Rightarrow> collapsed n)))"

definition consistent :: "('x \<Rightarrow> 'x \<Rightarrow> int) \<Rightarrow> bool" where
  "consistent c \<longleftrightarrow>
     (\<forall>a b. c a b < 0 \<longleftrightarrow> 0 < c b a) \<and>
     (\<forall>a b d. c a b \<le> 0 \<and> c b d \<le> 0 \<longrightarrow> c a d \<le> 0)"

abbreviation ordered :: "('x \<Rightarrow> 'x \<Rightarrow> int) \<Rightarrow> 'x list \<Rightarrow> bool" where
  "ordered c xs \<equiv> sorted_wrt (\<lambda>a b. c a b \<le> 0) xs"




definition exact_on :: "('a node \<Rightarrow> 'k) \<Rightarrow> ('k \<rightharpoonup> nat) \<Rightarrow> 'a node list \<Rightarrow> bool" where
  "exact_on key idx ns \<longleftrightarrow>
     (\<forall>n \<in> set ns. idx (key n) = Some (nid n)) \<and>
     (\<forall>k v. idx k = Some v \<longrightarrow> (\<exists>n \<in> set ns. nid n = v \<and> key n = k))"

definition index_exact :: "'a object_tree_model \<Rightarrow> bool" where
  "index_exact m \<longleftrightarrow>
     well_formed m \<and>
     exact_on element (nodes m) (forest (root_children (model m))) \<and>
     (case identityProvider m of
        None \<Rightarrow> True
      | Some getId \<Rightarrow>
          exact_on (\<lambda>n. getId (element n)) (nodesByIdentity m) (forest (root_children (model m))))"

definition unique_keys ::
  "('a \<Rightarrow> 'k) \<Rightarrow> 'a tree_element list \<Rightarrow> 'a node list \<Rightarrow> 'a node list \<Rightarrow> bool" where
  "unique_keys key chn present removed \<longleftrightarrow>
     distinct (map (\<lambda>d. key (el_element d)) (el_forest chn)) \<and>
     (\<forall>n \<in> set present.
        key (element n) \<in> (\<lambda>d. key (el_element d)) ` set (el_forest chn) \<longrightarrow> n \<in> set removed)"

section \<open>Concrete inputs\<close>

text \<open>Elements are numbers in the examples; the sorter compares them as numbers.\<close>

definition compare_nat :: "nat \<Rightarrow> nat \<Rightarrow> int" where
  "compare_nat a b = int a - int b"

definition no_ops :: "nat engine_ops" where
  "no_ops =
     \<lparr>eng_rerender = (\<lambda>location eng. Some eng),
      eng_setCollapsible = (\<lambda>location cb eng. Some (False, eng)),
      eng_setCollapsed = (\<lambda>location cd recursive eng. Some (False, eng)),
      eng_expandTo = (\<lambda>location eng. Some eng),
      eng_getListIndex = (\<lambda>location eng. Some 0),
      eng_getListRenderCount = (\<lambda>location eng. Some 0),
      eng_getFirstElementChild = (\<lambda>location eng. Some None),
      eng_getLastElementAncestor = (\<lambda>location eng. Some None)\<rparr>"

definition empty_unsorted :: "nat object_tree_model" where
  "empty_unsorted = new_model ''tree'' False False DeletionsFirst None None"

definition empty_sorted :: "nat object_tree_model" where
  "empty_sorted = new_model ''tree'' False False DeletionsFirst (Some compare_nat) None"

definition key_of :: "nat \<Rightarrow> string" where
  "key_of n = (if n mod 10 = 1 then ''a'' else if n mod 10 = 2 then ''b'' else if n mod 10 = 3 then ''c'' else ''z'')"

definition identity_model :: "nat object_tree_model" where
  "identity_model = new_model ''tree'' False False CreationsFirst None (Some key_of)"

definition abc_model :: "nat object_tree_model" where
  "abc_model = fst (snd (setChildren None
      (Some [TreeElement 1 None None [], TreeElement 2 None None [], TreeElement 3 None (Some True) []])
      None None (identity_model, ())))"

definition cba_children :: "nat tree_element list" where
  "cba_children = [TreeElement 13 None None [], TreeElement 2 None None [], TreeElement 1 None None []]"

definition cba_model :: "nat object_tree_model" where
  "cba_model = fst (snd (setChildren None (Some cba_children) None None (abc_model, ())))"

definition count_call :: "nat node \<Rightarrow> nat \<Rightarrow> nat" where
  "count_call n c = Suc c"

definition staged_state :: "(nat, unit) splice_state" where
  "staged_state =
     \<lparr>st_nodes = [13 \<mapsto> 4], st_nodesByIdentity = [''c'' \<mapsto> 4],
      insertedElements = {13}, insertedElementIds = {''c''}, st_user = ()\<rparr>"

definition compare_tens :: "nat \<Rightarrow> nat \<Rightarrow> int" where
  "compare_tens a b = int (a div 10) - int (b div 10)"

definition tens_model :: "nat object_tree_model" where
  "tens_model = new_model ''tree'' False False DeletionsFirst (Some compare_tens) None"

definition tens_children :: "nat tree_element list" where
  "tens_children = [TreeElement 21 None None [], TreeElement 12 None None [],
                    TreeElement 25 None None [], TreeElement 11 None None []]"

definition tens_sorted :: "nat object_tree_model" where
  "tens_sorted = fst (snd (setChildren None (Some tens_children) None None (tens_model, ())))"

definition compare_rev :: "nat \<Rightarrow> nat \<Rightarrow> int" where
  "compare_rev a b = int b - int a"

definition family :: "nat tree_element list" where
  "family = [TreeElement 1 None None [TreeElement 6 None None [], TreeElement 7 None None []],
             TreeElement 2 None None [TreeElement 8 None None [], TreeElement 9 None None []]]"

definition descending_model :: "nat object_tree_model" where
  "descending_model =
     fst (snd (setChildren None (Some family) None None
       (new_model ''tree'' False False DeletionsFirst (Some compare_rev) None, ())))"

definition reordered_model :: "nat object_tree_model" where
  "reordered_model = descending_model\<lparr>sorter := Some compare_nat\<rparr>"

definition twins :: "nat tree_element list" where
  "twins = [TreeElement 7 None None [], TreeElement 7 None None []]"

definition twins_model :: "nat object_tree_model" where
  "twins_model = fst (snd (setChildren None (Some twins) None None (empty_unsorted, ())))"

definition same_key :: "nat tree_element list" where
  "same_key = [TreeElement 1 None None [], TreeElement 11 None None []]"

definition same_key_model :: "nat object_tree_model" where
  "same_key_model = fst (snd (setChildren None (Some same_key) None None (identity_model, ())))"

definition override_children :: "nat tree_element list" where
  "override_children = [TreeElement 1 None (Some True) [], TreeElement 13 (Some True) None []]"

definition more_tens :: "nat tree_element list" where
  "more_tens = [TreeElement 35 None None [], TreeElement 31 None None [],
                TreeElement 42 None None [], TreeElement 33 None None []]"

definition compare_after :: "nat \<Rightarrow> nat \<Rightarrow> int" where
  "compare_after a b = 1"

definition after_model :: "nat object_tree_model" where
  "after_model = new_model ''tree'' False False DeletionsFirst (Some compare_after) None"

definition lineage :: "nat tree_element list" where
  "lineage = [TreeElement 10 None None
                [TreeElement 3 None None [TreeElement 5 None None [], TreeElement 6 None None []],
                 TreeElement 4 None None [TreeElement 7 None None [], TreeElement 8 None None []]],
              TreeElement 20 None None []]"

definition lineage_model :: "nat object_tree_model" where
  "lineage_model =
     fst (snd (setChildren None (Some lineage) None None
       (new_model ''tree'' False False DeletionsFirst (Some compare_rev) None, ())))"

definition lineage_reordered :: "nat object_tree_model" where
  "lineage_reordered = lineage_model\<lparr>sorter := Some compare_nat\<rparr>"

section \<open>Lemmas about the engine and the callbacks\<close>

lemma forest_Nil [simp]: "forest [] = []"
  by (simp add: forest_def)

lemma forest_Cons [simp]: "forest (c # cs) = subtree c @ forest cs"
  by (simp add: forest_def)

lemma forest_append [simp]: "forest (xs @ ys) = forest xs @ forest ys"
  by (simp add: forest_def)

lemma subtree_forest: "subtree n = n # forest (children n)"
  by (cases n) (simp add: forest_def)

lemma subtree_in_forest: "n \<in> set cs \<Longrightarrow> set (subtree n) \<subseteq> set (forest cs)"
  by (auto simp: forest_def)

lemma roots_in_forest: "set cs \<subseteq> set (forest cs)"
  by (induction cs) (auto simp: subtree_forest)

lemma node_at_Cons:
  "node_at cs (i # p) =
     (if i < length cs then (if p = [] then Some (cs ! i) else node_at (children (cs ! i)) p) else None)"
  by (cases p) simp_all

lemma find_append_split:
  "find P (xs @ ys) = (case find P xs of None \<Rightarrow> find P ys | Some x \<Rightarrow> Some x)"
  by (induction xs) auto

lemma node_at_Suc: "node_at (c # cs) (Suc i # q) = node_at cs (i # q)"
  by (simp add: node_at_Cons)

lemma find_path_first:
  "(find_path k (c :: 'e node) = None \<longrightarrow> find (\<lambda>n. nid n = k) (subtree c) = None) \<and>
   (\<forall>p. find_path k c = Some p \<longrightarrow>
      (\<exists>n. node_below c p = Some n \<and> find (\<lambda>n. nid n = k) (subtree c) = Some n))"
  "(find_path_list k j (cs :: 'e node list) = None \<longrightarrow> find (\<lambda>n. nid n = k) (forest cs) = None) \<and>
   (\<forall>p. find_path_list k j cs = Some p \<longrightarrow>
      (\<exists>i q n. p = (j + i) # q \<and> node_at cs (i # q) = Some n \<and>
         find (\<lambda>n. nid n = k) (forest cs) = Some n))"
proof (induction k c and k j cs rule: find_path_find_path_list.induct)
  case (1 k i e cb cd cs)
  show ?case
  proof (cases "i = k")
    case True
    then show ?thesis by simp
  next
    case False
    with 1 show ?thesis
      by (simp add: forest_def[symmetric]) fastforce
  qed
next
  case (2 k j)
  then show ?case by simp
next
  case (3 k j c cs)
  show ?case
  proof (cases "find_path k c")
    case None
    then have nf: "find (\<lambda>n. nid n = k) (subtree c) = None"
      using 3(1) by simp
    show ?thesis
    proof (cases "find_path_list k (Suc j) cs")
      case None': None
      with None 3(2) nf show ?thesis
        by (simp add: find_append_split)
    next
      case (Some p)
      with None 3(2) obtain i q n where
        "p = (Suc j + i) # q" "node_at cs (i # q) = Some n"
        "find (\<lambda>n. nid n = k) (forest cs) = Some n"
        by blast
      then have "p = (j + Suc i) # q \<and> node_at (c # cs) (Suc i # q) = Some n \<and>
         find (\<lambda>n. nid n = k) (forest (c # cs)) = Some n"
        using nf by (simp add: find_append_split node_at_Suc)
      with None Some show ?thesis
        by (simp del: node_at.simps)
    qed
  next
    case (Some p)
    with 3(1) obtain n where n: "node_below c p = Some n" "find (\<lambda>n. nid n = k) (subtree c) = Some n"
      by blast
    then have "node_at (c # cs) (0 # p) = Some n"
      by (auto simp: node_at_Cons split: if_splits)
    with n Some show ?thesis
      by (simp add: find_append_split del: node_at.simps)
  qed
qed

lemma el_forest_Nil [simp]: "el_forest [] = []"
  by (simp add: el_forest_def)

lemma el_forest_Cons [simp]: "el_forest (d # ds) = el_subtree d @ el_forest ds"
  by (simp add: el_forest_def)

lemma el_forest_append [simp]: "el_forest (xs @ ys) = el_forest xs @ el_forest ys"
  by (simp add: el_forest_def)

lemma find_path_list_deref:
  assumes "find_path_list k 0 cs = Some p"
  shows "\<exists>n. node_at cs p = Some n \<and> find (\<lambda>n. nid n = k) (forest cs) = Some n"
  using find_path_first(2) [of k 0 cs] assms by auto

lemma find_path_list_None:
  "find_path_list k 0 cs = None \<longleftrightarrow> find (\<lambda>n. nid n = k) (forest cs) = None"
  using find_path_first(2) [of k 0 cs] by (cases "find_path_list k 0 cs") auto

lemma node_at_children_at:
  "node_at cs p = Some n \<Longrightarrow> children_at cs p = Some (children n)"
  by (induction cs p rule: node_at.induct) (auto split: if_splits)

lemma find_distinct_nid:
  "distinct (map nid xs) \<Longrightarrow> n \<in> set xs \<Longrightarrow> find (\<lambda>x. nid x = nid n) xs = Some n"
proof (induction xs)
  case Nil
  then show ?case by simp
next
  case (Cons x xs)
  then show ?case by (auto simp: image_iff)
qed

lemma length_created:
  "length (subtree (createTreeNode dcb dcd k (d :: 'a tree_element))) = count_elements d"
  "length (forest (createTreeNodes dcb dcd k (ds :: 'a tree_element list))) = sum_list (map count_elements ds)"
  by (induction dcb dcd k d and dcb dcd k ds rule: createTreeNode_createTreeNodes.induct)
     (simp_all add: forest_def[symmetric])

lemma nids_created:
  "distinct (map nid (subtree (createTreeNode dcb dcd k (d :: 'a tree_element)))) \<and>
   nid ` set (subtree (createTreeNode dcb dcd k d)) = {k ..< k + count_elements d}"
  "distinct (map nid (forest (createTreeNodes dcb dcd k (ds :: 'a tree_element list)))) \<and>
   nid ` set (forest (createTreeNodes dcb dcd k ds)) = {k ..< k + sum_list (map count_elements ds)}"
proof (induction dcb dcd k d and dcb dcd k ds rule: createTreeNode_createTreeNodes.induct)
  case (1 dcb dcd k e cb cd ch)
  let ?s = "sum_list (map count_elements ch)"
  have "insert k {Suc k ..< Suc k + ?s} = {k ..< k + Suc ?s}"
    by auto
  with 1 show ?case
    by (simp add: forest_def[symmetric])
next
  case (2 dcb dcd k)
  then show ?case by simp
next
  case (3 dcb dcd k d ds)
  let ?a = "count_elements d" and ?b = "sum_list (map count_elements ds)"
  have un: "{k ..< k + ?a} \<union> {k + ?a ..< k + ?a + ?b} = {k ..< k + (?a + ?b)}"
    by auto
  have disj: "{k ..< k + ?a} \<inter> {k + ?a ..< k + ?a + ?b} = {}"
    by auto
  from 3 un disj show ?case
    by (simp add: image_Un)
qed

lemma flags_created:
  "map node_flags (subtree (createTreeNode dcb dcd k (d :: 'a tree_element))) = map (filled dcb dcd) (el_subtree d)"
  "map node_flags (forest (createTreeNodes dcb dcd k (ds :: 'a tree_element list))) = map (filled dcb dcd) (el_forest ds)"
  by (induction dcb dcd k d and dcb dcd k ds rule: createTreeNode_createTreeNodes.induct)
     (simp_all add: forest_def[symmetric] el_forest_def[symmetric] node_flags_def filled_def)

lemma roots_created:
  "map element (createTreeNodes dcb dcd k ds) = map el_element ds"
proof (induction ds arbitrary: k)
  case Nil
  then show ?case by simp
next
  case (Cons d ds)
  then show ?case by (cases d) simp
qed

lemma children_at_replace:
  "children_at cs p = Some old \<Longrightarrow> children_at (replace_children p new cs) p = Some new"
  by (induction p arbitrary: cs) (auto split: if_splits)

lemma forest_update:
  assumes "i < length cs"
  shows "forest (cs[i := c]) = forest (take i cs) @ subtree c @ forest (drop (Suc i) cs)"
    and "forest cs = forest (take i cs) @ subtree (cs ! i) @ forest (drop (Suc i) cs)"
proof -
  show "forest (cs[i := c]) = forest (take i cs) @ subtree c @ forest (drop (Suc i) cs)"
    using assms by (simp add: upd_conv_take_nth_drop)
  have "cs = take i cs @ cs ! i # drop (Suc i) cs"
    using assms by (simp add: id_take_nth_drop)
  then have "forest cs = forest (take i cs @ cs ! i # drop (Suc i) cs)"
    by simp
  then show "forest cs = forest (take i cs) @ subtree (cs ! i) @ forest (drop (Suc i) cs)"
    by simp
qed

lemma labels_replace:
  "children_at cs p = Some old \<Longrightarrow>
   mset (map node_label (forest (replace_children p new cs))) + mset (map node_label (forest old)) =
   mset (map node_label (forest cs)) + mset (map node_label (forest new))"
proof (induction p arbitrary: cs)
  case Nil
  then show ?case by simp
next
  case (Cons i p)
  then have i: "i < length cs" and sub: "children_at (children (cs ! i)) p = Some old"
    by (auto split: if_splits)
  let ?c = "cs ! i"
  let ?c' = "Node (nid ?c) (element ?c) (collapsible ?c) (collapsed ?c) (replace_children p new (children ?c))"
  have l: "node_label ?c' = node_label ?c"
    by (simp add: node_label_def)
  have s': "subtree ?c' = ?c' # forest (replace_children p new (children ?c))"
    by (simp add: forest_def)
  have s: "subtree ?c = ?c # forest (children ?c)"
    by (rule subtree_forest)
  have r: "replace_children (i # p) new cs = cs[i := ?c']"
    using i by simp
  let ?L = "mset (map node_label (forest (take i cs)))"
  let ?R = "mset (map node_label (forest (drop (Suc i) cs)))"
  have A: "mset (map node_label (forest (replace_children (i # p) new cs))) =
           ?L + add_mset (node_label ?c) (mset (map node_label (forest (replace_children p new (children ?c))))) + ?R"
    unfolding r forest_update(1) [OF i] s' using l by simp
  have B: "mset (map node_label (forest cs)) =
           ?L + add_mset (node_label ?c) (mset (map node_label (forest (children ?c)))) + ?R"
    by (subst forest_update(2) [OF i]) (simp add: s)
  show ?case
    unfolding A B using Cons.IH [OF sub]
    by (simp add: ac_simps)
qed

lemma find_snoc:
  "find P (xs @ [x]) = (case find P xs of None \<Rightarrow> (if P x then Some x else None) | Some y \<Rightarrow> Some y)"
  by (induction xs) auto

lemma create_step:
  "st_nodes (priv_onDidCreateNode idp oc n s) = (st_nodes s)(element n \<mapsto> nid n)"
  "st_nodesByIdentity (priv_onDidCreateNode idp oc n s) =
     (case idp of None \<Rightarrow> st_nodesByIdentity s
      | Some getId \<Rightarrow> (st_nodesByIdentity s)(getId (element n) \<mapsto> nid n))"
  "insertedElements (priv_onDidCreateNode idp oc n s) = insert (element n) (insertedElements s)"
  "insertedElementIds (priv_onDidCreateNode idp oc n s) =
     (case idp of None \<Rightarrow> insertedElementIds s
      | Some getId \<Rightarrow> insert (getId (element n)) (insertedElementIds s))"
  "st_user (priv_onDidCreateNode idp oc n s) = callback_of oc n (st_user s)"
  by (simp_all add: priv_onDidCreateNode_def callback_of_def Let_def split: option.splits)

lemma delete_step:
  "st_nodes (priv_onDidDeleteNode idp od n s) =
     (if element n \<notin> insertedElements s then (st_nodes s)(element n := None) else st_nodes s)"
  "st_nodesByIdentity (priv_onDidDeleteNode idp od n s) =
     (case idp of None \<Rightarrow> st_nodesByIdentity s
      | Some getId \<Rightarrow>
          (if getId (element n) \<notin> insertedElementIds s
           then (st_nodesByIdentity s)(getId (element n) := None) else st_nodesByIdentity s))"
  "insertedElements (priv_onDidDeleteNode idp od n s) = insertedElements s"
  "insertedElementIds (priv_onDidDeleteNode idp od n s) = insertedElementIds s"
  "st_user (priv_onDidDeleteNode idp od n s) = callback_of od n (st_user s)"
  by (simp_all add: priv_onDidDeleteNode_def callback_of_def Let_def split: option.splits)

lemma create_fold_nodes:
  "st_nodes (fold (priv_onDidCreateNode idp oc) ns s) =
     (\<lambda>e. case find (\<lambda>n. element n = e) (rev ns) of Some n \<Rightarrow> Some (nid n) | None \<Rightarrow> st_nodes s e)"
proof (induction ns arbitrary: s)
  case Nil
  then show ?case by simp
next
  case (Cons n ns)
  show ?case
    by (rule ext) (simp add: Cons find_snoc create_step split: option.splits)
qed

lemma create_fold_ids_None:
  "st_nodesByIdentity (fold (priv_onDidCreateNode None oc) ns s) = st_nodesByIdentity s"
  by (induction ns arbitrary: s) (simp_all add: create_step)

lemma create_fold_ids_Some:
  "st_nodesByIdentity (fold (priv_onDidCreateNode (Some getId) oc) ns s) =
     (\<lambda>k. case find (\<lambda>n. getId (element n) = k) (rev ns) of
            Some n \<Rightarrow> Some (nid n) | None \<Rightarrow> st_nodesByIdentity s k)"
proof (induction ns arbitrary: s)
  case Nil
  then show ?case by simp
next
  case (Cons n ns)
  show ?case
    by (rule ext) (simp add: Cons create_step find_snoc split: option.splits)
qed

lemma create_fold_staged:
  "insertedElements (fold (priv_onDidCreateNode idp oc) ns s) = insertedElements s \<union> element ` set ns"
  "insertedElementIds (fold (priv_onDidCreateNode idp oc) ns s) =
     (case idp of None \<Rightarrow> insertedElementIds s
      | Some getId \<Rightarrow> insertedElementIds s \<union> (\<lambda>n. getId (element n)) ` set ns)"
  by (induction ns arbitrary: s) (auto simp: create_step split: option.splits)

lemma create_fold_user:
  "st_user (fold (priv_onDidCreateNode idp oc) ns s) = fold (callback_of oc) ns (st_user s)"
  by (induction ns arbitrary: s) (simp_all add: create_step)

lemma delete_fold_staged:
  "insertedElements (fold (priv_onDidDeleteNode idp od) ns s) = insertedElements s"
  "insertedElementIds (fold (priv_onDidDeleteNode idp od) ns s) = insertedElementIds s"
  by (induction ns arbitrary: s) (simp_all add: delete_step)

lemma delete_fold_nodes:
  "st_nodes (fold (priv_onDidDeleteNode idp od) ns s) =
     (\<lambda>e. if e \<in> element ` set ns \<and> e \<notin> insertedElements s then None else st_nodes s e)"
proof (induction ns arbitrary: s)
  case Nil
  then show ?case by simp
next
  case (Cons n ns)
  show ?case
    by (rule ext) (simp add: Cons delete_step)
qed

lemma delete_fold_ids_None:
  "st_nodesByIdentity (fold (priv_onDidDeleteNode None od) ns s) = st_nodesByIdentity s"
  by (induction ns arbitrary: s) (simp_all add: delete_step)

lemma delete_fold_ids_Some:
  "st_nodesByIdentity (fold (priv_onDidDeleteNode (Some getId) od) ns s) =
     (\<lambda>k. if k \<in> (\<lambda>n. getId (element n)) ` set ns \<and> k \<notin> insertedElementIds s
           then None else st_nodesByIdentity s k)"
proof (induction ns arbitrary: s)
  case Nil
  then show ?case by simp
next
  case (Cons n ns)
  show ?case
    by (rule ext) (simp add: Cons delete_step)
qed

lemma delete_fold_user:
  "st_user (fold (priv_onDidDeleteNode idp od) ns s) = fold (callback_of od) ns (st_user s)"
  by (induction ns arbitrary: s) (simp_all add: delete_step)

lemma splice_all_children:
  assumes "children_at (root_children eng) location = Some cs"
  shows "splice eng (location @ [0]) \<infinity> chn onC onD s =
     Some (eng\<lparr>root_children :=
                  replace_children location
                    (createTreeNodes (default_collapsible eng) (default_collapsed eng) (next_nid eng) chn)
                    (root_children eng),
                next_nid := next_nid eng +
                  length (forest (createTreeNodes (default_collapsible eng) (default_collapsed eng) (next_nid eng) chn))\<rparr>,
           (case callback_order eng of
              DeletionsFirst \<Rightarrow>
                fold onC (forest (createTreeNodes (default_collapsible eng) (default_collapsed eng) (next_nid eng) chn))
                  (fold onD (forest cs) s)
            | CreationsFirst \<Rightarrow>
                fold onD (forest cs)
                  (fold onC (forest (createTreeNodes (default_collapsible eng) (default_collapsed eng) (next_nid eng) chn)) s)))"
  using assms by (cases "callback_order eng") (simp_all add: splice_def Let_def)

lemma splice_invalid:
  assumes "children_at (root_children eng) location = None"
  shows "splice eng (location @ [0]) \<infinity> chn onC onD s = None"
  using assms by (simp add: splice_def)

lemma find_None_image: "find (\<lambda>n. key n = k) xs = None \<longleftrightarrow> k \<notin> key ` set xs"
  by (auto simp: find_None_iff)

lemma find_Some_image: "find (\<lambda>n. key n = k) xs = Some n \<Longrightarrow> k \<in> key ` set xs"
  by (auto simp: find_Some_iff)

lemma priv_setChildren_result:
  assumes "children_at (root_children (model m)) location = Some cs"
  shows "priv_setChildren location chn oc od (m, u) =
     (Inr (),
      m\<lparr>model := (model m)\<lparr>root_children := replace_children location (new_nodes m chn) (root_children (model m)),
                            next_nid := next_nid (model m) + length (forest (new_nodes m chn))\<rparr>,
        nodes := index_after element (forest (new_nodes m chn)) (forest cs) (nodes m),
        nodesByIdentity :=
          (case identityProvider m of
             None \<Rightarrow> nodesByIdentity m
           | Some getId \<Rightarrow>
               index_after (\<lambda>n. getId (element n)) (forest (new_nodes m chn)) (forest cs) (nodesByIdentity m))\<rparr>,
      user_after (callback_order (model m)) oc od (forest (new_nodes m chn)) (forest cs) u)"
proof -
  let ?new = "forest (new_nodes m chn)"
  let ?s0 = "\<lparr>st_nodes = nodes m, st_nodesByIdentity = nodesByIdentity m,
              insertedElements = {}, insertedElementIds = {}, st_user = u\<rparr>"
  let ?C = "priv_onDidCreateNode (identityProvider m) oc"
  let ?D = "priv_onDidDeleteNode (identityProvider m) od"
  let ?s = "case callback_order (model m) of
              DeletionsFirst \<Rightarrow> fold ?C ?new (fold ?D (forest cs) ?s0)
            | CreationsFirst \<Rightarrow> fold ?D (forest cs) (fold ?C ?new ?s0)"
  have n: "st_nodes ?s = index_after element ?new (forest cs) (nodes m)"
    by (cases "callback_order (model m)")
       (auto simp: create_fold_nodes delete_fold_nodes create_fold_staged delete_fold_staged
          index_after_def fun_eq_iff find_None_image dest: find_Some_image split: option.splits)
  have i: "st_nodesByIdentity ?s =
     (case identityProvider m of
        None \<Rightarrow> nodesByIdentity m
      | Some getId \<Rightarrow> index_after (\<lambda>n. getId (element n)) ?new (forest cs) (nodesByIdentity m))"
  proof (cases "identityProvider m")
    case None
    then show ?thesis
      by (cases "callback_order (model m)") (simp_all add: create_fold_ids_None delete_fold_ids_None)
  next
    case (Some getId)
    then show ?thesis
      by (cases "callback_order (model m)")
         (auto simp: create_fold_ids_Some delete_fold_ids_Some create_fold_staged delete_fold_staged
            index_after_def fun_eq_iff find_None_image dest: find_Some_image split: option.splits)
  qed
  have usr: "st_user ?s = user_after (callback_order (model m)) oc od ?new (forest cs) u"
    by (cases "callback_order (model m)")
       (simp_all add: user_after_def create_fold_user delete_fold_user)
  show ?thesis
    unfolding priv_setChildren_def Let_def fst_conv snd_conv
      splice_all_children [OF assms] new_nodes_def[symmetric]
    using n i usr by (simp add: new_nodes_def)
qed

lemma well_formed_new_model: "well_formed (new_model usr dcb dcd ord srt idp)"
  by (simp add: well_formed_def new_model_def)

lemma node_at_not_Nil: "node_at cs p = Some n \<Longrightarrow> p \<noteq> []"
  by auto

lemma present_node:
  assumes "well_formed m" and "nodes m e = Some k"
  shows "\<exists>n location. n \<in> set (forest (root_children (model m))) \<and> nid n = k \<and> element n = e \<and>
           deref (model m) k = Some n \<and>
           getElementLocation m (Some e) = Inr location \<and> location \<noteq> [] \<and>
           node_at (root_children (model m)) location = Some n"
proof -
  let ?rc = "root_children (model m)"
  from assms obtain n where n: "n \<in> set (forest ?rc)" "nid n = k" "element n = e"
    unfolding well_formed_def by blast
  from assms(1) have d: "distinct (map nid (forest ?rc))"
    by (simp add: well_formed_def)
  have f: "find (\<lambda>x. nid x = k) (forest ?rc) = Some n"
    using find_distinct_nid [OF d n(1)] n(2) by simp
  have k0: "k \<noteq> 0"
    using assms(1) n unfolding well_formed_def by auto
  from f have "find_path_list k 0 ?rc \<noteq> None"
    by (simp add: find_path_list_None)
  then obtain p where p: "find_path_list k 0 ?rc = Some p"
    by blast
  from find_path_list_deref [OF p] f have na: "node_at ?rc p = Some n"
    by auto
  have "getElementLocation m (Some e) = Inr p"
    using assms(2) p k0 by (simp add: getElementLocation_def engine_getNodeLocation_def)
  with n f na node_at_not_Nil [OF na] show ?thesis
    by (auto simp: deref_def)
qed

lemma location_valid:
  assumes "well_formed m" and "getElementLocation m el = Inr location"
  shows "\<exists>cs. children_at (root_children (model m)) location = Some cs"
proof (cases el)
  case None
  with assms(2) show ?thesis by (simp add: getElementLocation_def)
next
  case (Some e)
  with assms(2) obtain k where k: "nodes m e = Some k"
    by (auto simp: getElementLocation_def split: option.splits)
  from present_node [OF assms(1) k] Some assms(2) show ?thesis
    by (auto dest: node_at_children_at)
qed

lemma map_node_sel [simp]:
  "nid (map_node f n) = nid n" "element (map_node f n) = f (element n)"
  "collapsible (map_node f n) = collapsible n" "collapsed (map_node f n) = collapsed n"
  by (cases n; simp)+

lemma flags_present:
  assumes "well_formed m" and "nodes m e = Some k"
  shows "\<exists>n. n \<in> set (forest (root_children (model m))) \<and> nid n = k \<and> element n = e \<and>
           deref (model m) k = Some n \<and>
           isCollapsed m (Some e) = Inr (collapsed n) \<and>
           isCollapsible m (Some e) = Inr (collapsible n) \<and>
           getNode m (Some e) = Inr (map_node Some n)"
proof -
  from present_node [OF assms] obtain n location where
    n: "n \<in> set (forest (root_children (model m)))" "nid n = k" "element n = e"
       "deref (model m) k = Some n" "getElementLocation m (Some e) = Inr location"
       "location \<noteq> []" "node_at (root_children (model m)) location = Some n"
    by blast
  have "isCollapsed m (Some e) = Inr (collapsed n)"
    using n(5-7) by (simp add: isCollapsed_def engine_isCollapsed_def engine_getNode_def engine_result_def)
  moreover have "isCollapsible m (Some e) = Inr (collapsible n)"
    using n(5-7) by (simp add: isCollapsible_def engine_isCollapsible_def engine_getNode_def engine_result_def)
  moreover have "getNode m (Some e) = Inr (map_node Some n)"
    using n assms(2) by (simp add: getNode_def engine_result_def)
  ultimately show ?thesis using n by blast
qed

lemma nid_mset: "mset (map nid xs) = image_mset fst (mset (map node_label xs))"
  by (simp add: node_label_def multiset.map_comp comp_def)

lemma labels_replace_sets:
  assumes "children_at cs p = Some old"
  shows "node_label ` set (forest (replace_children p new cs)) \<subseteq>
           node_label ` set (forest cs) \<union> node_label ` set (forest new)"
    and "node_label ` set (forest cs) \<subseteq>
           node_label ` set (forest (replace_children p new cs)) \<union> node_label ` set (forest old)"
    and "node_label ` set (forest new) \<subseteq>
           node_label ` set (forest (replace_children p new cs)) \<union> node_label ` set (forest old)"
proof -
  let ?A' = "mset (map node_label (forest (replace_children p new cs)))"
  let ?D = "mset (map node_label (forest old))"
  let ?A = "mset (map node_label (forest cs))"
  let ?C = "mset (map node_label (forest new))"
  have eq: "?A' + ?D = ?A + ?C"
    by (rule labels_replace [OF assms])
  then have "set_mset (?A' + ?D) = set_mset (?A + ?C)"
    by simp
  then have s: "node_label ` set (forest (replace_children p new cs)) \<union> node_label ` set (forest old) =
             node_label ` set (forest cs) \<union> node_label ` set (forest new)"
    by simp
  show "node_label ` set (forest (replace_children p new cs)) \<subseteq>
           node_label ` set (forest cs) \<union> node_label ` set (forest new)"
    using s by blast
  show "node_label ` set (forest cs) \<subseteq>
           node_label ` set (forest (replace_children p new cs)) \<union> node_label ` set (forest old)"
    using s by blast
  show "node_label ` set (forest new) \<subseteq>
           node_label ` set (forest (replace_children p new cs)) \<union> node_label ` set (forest old)"
    using s by blast
qed

lemma nids_replace_distinct:
  assumes "children_at cs p = Some old"
    and "distinct (map nid (forest cs))"
    and "distinct (map nid (forest new))"
    and "nid ` set (forest new) \<inter> nid ` set (forest cs) = {}"
  shows "distinct (map nid (forest (replace_children p new cs)))"
proof -
  let ?A' = "mset (map nid (forest (replace_children p new cs)))"
  let ?D = "mset (map nid (forest old))"
  let ?A = "mset (map nid (forest cs))"
  let ?C = "mset (map nid (forest new))"
  have eq: "?A' + ?D = ?A + ?C"
    unfolding nid_mset using labels_replace [OF assms(1), of new]
    by (metis image_mset_union)
  have "count ?A' x \<le> 1" for x
  proof -
    have c: "count ?A' x + count ?D x = count ?A x + count ?C x"
      using eq by (metis count_union)
    have a: "count ?A x \<le> 1" and n: "count ?C x \<le> 1"
      using assms(2,3) by (simp_all add: distinct_count_atmost_1)
    have "count ?A x = 0 \<or> count ?C x = 0"
      using assms(4) by (auto simp: count_eq_zero_iff disjoint_iff)
    with c a n show ?thesis by linarith
  qed
  then show ?thesis
    unfolding distinct_count_atmost_1
    by (metis One_nat_def count_eq_zero_iff le_antisym less_one not_le set_mset_mset not_in_iff count_greater_eq_one_iff)
qed

lemma priv_setChildren_spliced:
  assumes "children_at (root_children (model m)) location = Some cs"
  shows "priv_setChildren location chn oc od (m, u) =
     (Inr (), spliced m location cs chn,
      user_after (callback_order (model m)) oc od (forest (new_nodes m chn)) (forest cs) u)"
  unfolding spliced_def by (rule priv_setChildren_result [OF assms])

lemma priv_setChildren_invalid:
  assumes "children_at (root_children (model m)) location = None"
  shows "priv_setChildren location chn oc od (m, u) = (Inl (TreeError (user m) InvalidTreeLocation), m, u)"
  by (simp add: priv_setChildren_def Let_def splice_invalid [OF assms])

lemma spliced_fields [simp]:
  "root_children (model (spliced m location cs chn)) =
     replace_children location (new_nodes m chn) (root_children (model m))"
  "next_nid (model (spliced m location cs chn)) = next_nid (model m) + length (forest (new_nodes m chn))"
  "nodes (spliced m location cs chn) = index_after element (forest (new_nodes m chn)) (forest cs) (nodes m)"
  "identityProvider (spliced m location cs chn) = identityProvider m"
  "sorter (spliced m location cs chn) = sorter m"
  "user (spliced m location cs chn) = user m"
  "default_collapsible (model (spliced m location cs chn)) = default_collapsible (model m)"
  "default_collapsed (model (spliced m location cs chn)) = default_collapsed (model m)"
  "callback_order (model (spliced m location cs chn)) = callback_order (model m)"
  by (simp_all add: spliced_def)

lemma new_nodes_nids:
  "distinct (map nid (forest (new_nodes m chn)))"
  "nid ` set (forest (new_nodes m chn)) =
     {next_nid (model m) ..< next_nid (model m) + length (forest (new_nodes m chn))}"
  using nids_created(2) [of "default_collapsible (model m)" "default_collapsed (model m)" "next_nid (model m)" chn]
    length_created(2) [of "default_collapsible (model m)" "default_collapsed (model m)" "next_nid (model m)" chn]
  by (simp_all add: new_nodes_def)

lemma new_nodes_fresh:
  assumes "well_formed m"
  shows "nid ` set (forest (new_nodes m chn)) \<inter> nid ` set (forest (root_children (model m))) = {}"
  using assms unfolding well_formed_def new_nodes_nids(2) by fastforce

lemma children_at_in_forest:
  "children_at cs p = Some old \<Longrightarrow> set (forest old) \<subseteq> set (forest cs)"
proof (induction p arbitrary: cs)
  case Nil
  then show ?case by simp
next
  case (Cons i p)
  then have i: "i < length cs" and sub: "children_at (children (cs ! i)) p = Some old"
    by (auto split: if_splits)
  have "set (forest old) \<subseteq> set (forest (children (cs ! i)))"
    by (rule Cons.IH [OF sub])
  also have "\<dots> \<subseteq> set (subtree (cs ! i))"
    by (auto simp: subtree_forest)
  also have "\<dots> \<subseteq> set (forest cs)"
    using i by (intro subtree_in_forest) simp
  finally show ?case .
qed

lemma new_nodes_in_tree:
  assumes "well_formed m" and "children_at (root_children (model m)) location = Some cs"
    and "n \<in> set (forest (new_nodes m chn))"
  shows "\<exists>n' \<in> set (forest (root_children (model (spliced m location cs chn)))).
           node_label n' = node_label n"
proof -
  have "node_label n \<in> node_label ` set (forest (replace_children location (new_nodes m chn) (root_children (model m))))
        \<union> node_label ` set (forest cs)"
    using labels_replace_sets(3) [OF assms(2), of "new_nodes m chn"] assms(3) by blast
  moreover have "node_label n \<notin> node_label ` set (forest cs)"
  proof
    assume "node_label n \<in> node_label ` set (forest cs)"
    then obtain c where c: "c \<in> set (forest cs)" "nid c = nid n"
      by (auto simp: node_label_def)
    then have "c \<in> set (forest (root_children (model m)))"
      using children_at_in_forest [OF assms(2)] by blast
    with c(2) assms(3) new_nodes_fresh [OF assms(1), of chn] show False
      by (metis disjoint_iff imageI)
  qed
  ultimately show ?thesis by auto
qed

lemma label_sel:
  "node_label a = node_label b \<Longrightarrow>
     nid a = nid b \<and> element a = element b \<and> collapsible a = collapsible b \<and> collapsed a = collapsed b"
  by (simp add: node_label_def)

lemma kept_in_tree:
  assumes "children_at (root_children (model m)) location = Some cs"
    and "n \<in> set (forest (root_children (model m)))"
    and "node_label n \<notin> node_label ` set (forest cs)"
  shows "\<exists>n' \<in> set (forest (root_children (model (spliced m location cs chn)))).
           node_label n' = node_label n"
proof -
  have "node_label n \<in> node_label ` set (forest (root_children (model m)))"
    using assms(2) by (rule imageI)
  then have "node_label n \<in> node_label ` set (forest (replace_children location (new_nodes m chn) (root_children (model m))))"
    using labels_replace_sets(2) [OF assms(1), of "new_nodes m chn"] assms(3) by blast
  then show ?thesis
    by (simp add: image_iff) metis
qed

lemma find_Some_set: "find P xs = Some x \<Longrightarrow> x \<in> set xs \<and> P x"
  by (induction xs) (auto split: if_splits)

lemma index_after_cases:
  assumes "index_after key created deleted base k = Some v"
  shows "(\<exists>n \<in> set created. key n = k \<and> nid n = v) \<or>
         (k \<notin> key ` set created \<and> k \<notin> key ` set deleted \<and> base k = Some v)"
proof (cases "find (\<lambda>n. key n = k) (rev created)")
  case None
  with assms show ?thesis
    by (auto simp: index_after_def find_None_iff split: if_splits)
next
  case (Some n)
  then have "n \<in> set (rev created)" and "key n = k"
    by (auto dest: find_Some_set)
  moreover from Some assms have "v = nid n"
    by (simp add: index_after_def)
  ultimately show ?thesis by auto
qed

lemma well_formed_spliced:
  assumes "well_formed m" and "children_at (root_children (model m)) location = Some cs"
  shows "well_formed (spliced m location cs chn)"
proof -
  let ?m' = "spliced m location cs chn"
  let ?rc = "root_children (model m)" and ?rc' = "root_children (model ?m')"
  let ?new = "new_nodes m chn"
  have d: "distinct (map nid (forest ?rc'))"
    using nids_replace_distinct [OF assms(2) _ new_nodes_nids(1) new_nodes_fresh [OF assms(1)]] assms(1)
    by (simp add: well_formed_def)
  have r: "0 < nid n \<and> nid n < next_nid (model ?m')" if "n \<in> set (forest ?rc')" for n
  proof -
    from that have "node_label n \<in> node_label ` set (forest ?rc) \<union> node_label ` set (forest ?new)"
      using labels_replace_sets(1) [OF assms(2), of ?new] by auto
    then consider old where "old \<in> set (forest ?rc)" "nid old = nid n"
      | c where "c \<in> set (forest ?new)" "nid c = nid n"
      by (auto dest: label_sel)
    then show ?thesis
    proof cases
      case 1
      with assms(1) show ?thesis by (auto simp: well_formed_def)
    next
      case 2
      then have "nid n \<in> nid ` set (forest ?new)" by (metis imageI)
      with assms(1) show ?thesis
        unfolding new_nodes_nids(2) by (auto simp: well_formed_def)
    qed
  qed
  have e: "\<exists>n \<in> set (forest ?rc'). nid n = k \<and> element n = e" if "nodes ?m' e = Some k" for e k
  proof -
    from that have "index_after element (forest ?new) (forest cs) (nodes m) e = Some k"
      by simp
    from index_after_cases [OF this] show ?thesis
    proof
      assume "\<exists>n \<in> set (forest ?new). element n = e \<and> nid n = k"
      then obtain n where n: "n \<in> set (forest ?new)" "element n = e" "nid n = k" by blast
      from new_nodes_in_tree [OF assms n(1)] n(2,3) show ?thesis
        by (auto dest: label_sel)
    next
      assume a: "e \<notin> element ` set (forest ?new) \<and> e \<notin> element ` set (forest cs) \<and> nodes m e = Some k"
      with assms(1) obtain n where n: "n \<in> set (forest ?rc)" "nid n = k" "element n = e"
        unfolding well_formed_def by blast
      have "node_label n \<notin> node_label ` set (forest cs)"
        using a n(3) by (auto dest!: label_sel)
      from kept_in_tree [OF assms(2) n(1) this, of chn] n(2,3) show ?thesis
        by (auto dest: label_sel)
    qed
  qed
  from assms(1) have "0 < next_nid (model ?m')"
    by (simp add: well_formed_def)
  with d r e show ?thesis
    unfolding well_formed_def by blast
qed

lemma mset_merge_runs [simp]: "mset (merge_runs c xs ys) = mset xs + mset ys"
  by (induction c xs ys rule: merge_runs.induct) auto

lemma mset_mergeSort [simp]: "mset (mergeSort c xs) = mset xs"
proof (induction c xs rule: mergeSort.induct)
  case (1 c xs)
  show ?case
  proof (cases "length xs \<le> 1")
    case True
    then show ?thesis by (simp add: mergeSort.simps)
  next
    case False
    have "mset (take (length xs div 2) xs) + mset (drop (length xs div 2) xs) = mset xs"
      by (metis append_take_drop_id mset_append)
    with False 1 show ?thesis
      by (subst mergeSort.simps) simp
  qed
qed

lemma mset_insert_sorted [simp]: "mset (insert_sorted c x ys) = add_mset x (mset ys)"
  by (induction ys) auto

lemma mset_array_sort [simp]: "mset (array_sort c xs) = mset xs"
  by (induction xs) (auto simp: array_sort_def)

lemma el_subtree_forest: "el_subtree d = d # el_forest (el_children d)"
  by (cases d) (simp add: el_forest_def)

lemma el_forest_sum:
  "mset (map g (el_forest xs)) = sum_mset (image_mset (\<lambda>te. mset (map g (el_subtree te))) (mset xs))"
  by (induction xs) simp_all

lemma el_forest_perm:
  "mset xs = mset ys \<Longrightarrow> mset (map g (el_forest xs)) = mset (map g (el_forest ys))"
  by (simp only: el_forest_sum)

lemma el_forest_map:
  "(\<And>te. te \<in> set xs \<Longrightarrow> mset (map k (el_subtree (f te))) = mset (map r (el_subtree te))) \<Longrightarrow>
   mset (map k (el_forest (map f xs))) = mset (map r (el_forest xs))"
  by (induction xs) simp_all

lemma preserve_keys:
  "mset (map el_key (el_forest (preserveCollapseState m ds))) = mset (map (reconciled m) (el_forest ds))"
proof (induction m ds rule: preserveCollapseState.induct)
  case (1 m elements)
  let ?xs = "case sorter m of None \<Rightarrow> elements
             | Some cmp \<Rightarrow> mergeSort (\<lambda>a b. cmp (el_element a) (el_element b)) elements"
  let ?f = "\<lambda>treeElement.
            (case existing_node m (el_element treeElement) of
               None \<Rightarrow>
                 TreeElement (el_element treeElement) (el_collapsible treeElement)
                   (el_collapsed treeElement)
                   (preserveCollapseState m (el_children treeElement))
             | Some n \<Rightarrow>
                 TreeElement (el_element treeElement)
                   (Some (case el_collapsible treeElement of Some b \<Rightarrow> b | None \<Rightarrow> collapsible n))
                   (Some (case el_collapsed treeElement of Some b \<Rightarrow> b | None \<Rightarrow> collapsed n))
                   (preserveCollapseState m (el_children treeElement)))"
  have xs: "mset ?xs = mset elements"
    by (simp split: option.splits)
  have IH: "mset (map el_key (el_forest (preserveCollapseState m (el_children te)))) =
            mset (map (reconciled m) (el_forest (el_children te)))" if "te \<in> set ?xs" for te
    using 1 that by (cases "existing_node m (el_element te)") auto
  have sub: "mset (map el_key (el_subtree (?f te))) = mset (map (reconciled m) (el_subtree te))"
    if "te \<in> set ?xs" for te
    using IH [OF that]
    by (cases "existing_node m (el_element te)")
       (simp_all add: el_subtree_forest [of te] el_forest_def[symmetric] el_key_def reconciled_def)
  have "preserveCollapseState m elements = map ?f ?xs"
    by (subst preserveCollapseState.simps) simp
  then have "mset (map el_key (el_forest (preserveCollapseState m elements))) =
             mset (map el_key (el_forest (map ?f ?xs)))"
    by simp
  also have "\<dots> = mset (map (reconciled m) (el_forest ?xs))"
    by (rule el_forest_map) (rule sub)
  also have "\<dots> = mset (map (reconciled m) (el_forest elements))"
    by (rule el_forest_perm [OF xs])
  finally show ?case .
qed

lemma distinct_nid_eq:
  "distinct (map nid xs) \<Longrightarrow> a \<in> set xs \<Longrightarrow> b \<in> set xs \<Longrightarrow> nid a = nid b \<Longrightarrow> a = b"
  by (auto simp: distinct_map dest: inj_onD)

lemma filled_key: "el_key a = el_key b \<Longrightarrow> filled dcb dcd a = filled dcb dcd b"
  by (simp add: el_key_def filled_def)

lemma new_nodes_flags:
  "map node_flags (forest (new_nodes m chn)) =
     map (filled (default_collapsible (model m)) (default_collapsed (model m))) (el_forest chn)"
  by (simp add: new_nodes_def flags_created)

lemma index_after_created:
  assumes "k \<in> key ` set created"
  shows "\<exists>n \<in> set created. key n = k \<and> index_after key created deleted base k = Some (nid n)"
proof -
  from assms have "find (\<lambda>n. key n = k) (rev created) \<noteq> None"
    by (auto simp: find_None_iff)
  then obtain n where n: "find (\<lambda>n. key n = k) (rev created) = Some n"
    by blast
  then have "n \<in> set created" "key n = k"
    using find_Some_set [OF n] by auto
  with n show ?thesis
    by (auto simp: index_after_def)
qed

lemma flags_after_spliced:
  assumes "well_formed m" and "children_at (root_children (model m)) location = Some cs"
    and "d \<in> set (el_forest chn)"
    and "\<forall>d' \<in> set (el_forest chn). el_element d' = el_element d \<longrightarrow> el_key d' = el_key d"
  shows "isCollapsed (spliced m location cs chn) (Some (el_element d)) =
           Inr (case el_collapsed d of Some b \<Rightarrow> b | None \<Rightarrow> default_collapsed (model m))"
    and "isCollapsible (spliced m location cs chn) (Some (el_element d)) =
           Inr (case el_collapsible d of Some b \<Rightarrow> b | None \<Rightarrow> default_collapsible (model m))"
proof -
  let ?m' = "spliced m location cs chn"
  let ?created = "forest (new_nodes m chn)"
  let ?fill = "filled (default_collapsible (model m)) (default_collapsed (model m))"
  let ?e = "el_element d"
  have fl: "map node_flags ?created = map ?fill (el_forest chn)"
    by (rule new_nodes_flags)
  have "?fill d \<in> set (map node_flags ?created)"
    unfolding fl using assms(3) by simp
  then have "?e \<in> element ` set ?created"
    by (auto simp: node_flags_def filled_def image_iff)
  from index_after_created [OF this, of "forest cs" "nodes m"]
  obtain n0 where n0: "n0 \<in> set ?created" "element n0 = ?e" "nodes ?m' ?e = Some (nid n0)"
    by auto
  have "node_flags n0 \<in> set (map ?fill (el_forest chn))"
    unfolding fl[symmetric] using n0(1) by simp
  then obtain d' where d': "d' \<in> set (el_forest chn)" "?fill d' = node_flags n0"
    by auto
  then have "el_element d' = ?e"
    using n0(2) by (simp add: filled_def node_flags_def)
  with assms(4) d' have f0: "node_flags n0 = ?fill d"
    by (metis filled_key)
  have well_formed': "well_formed ?m'"
    by (rule well_formed_spliced [OF assms(1,2)])
  from flags_present [OF well_formed' n0(3)] obtain n where
    n: "n \<in> set (forest (root_children (model ?m')))" "nid n = nid n0"
       "isCollapsed ?m' (Some ?e) = Inr (collapsed n)" "isCollapsible ?m' (Some ?e) = Inr (collapsible n)"
    by blast
  from new_nodes_in_tree [OF assms(1,2) n0(1)] obtain n' where
    n': "n' \<in> set (forest (root_children (model ?m')))" "node_label n' = node_label n0"
    by blast
  have "n = n'"
    using well_formed' n(1,2) n' by (intro distinct_nid_eq [of "forest (root_children (model ?m'))"])
      (auto simp: well_formed_def dest: label_sel)
  then have "collapsed n = collapsed n0" "collapsible n = collapsible n0"
    using n'(2) by (auto dest: label_sel)
  with f0 n(3,4) show
    "isCollapsed ?m' (Some ?e) = Inr (case el_collapsed d of Some b \<Rightarrow> b | None \<Rightarrow> default_collapsed (model m))"
    "isCollapsible ?m' (Some ?e) = Inr (case el_collapsible d of Some b \<Rightarrow> b | None \<Rightarrow> default_collapsible (model m))"
    by (simp_all add: node_flags_def filled_def)
qed

lemma setChildren_located:
  assumes "well_formed m" and "getElementLocation m el = Inr location"
  shows "\<exists>cs. children_at (root_children (model m)) location = Some cs \<and>
           setChildren el chn oc od (m, u) =
             (Inr (), spliced m location cs (preserveCollapseState m (sequence_of chn)),
              user_after (callback_order (model m)) oc od
                (forest (new_nodes m (preserveCollapseState m (sequence_of chn)))) (forest cs) u)"
proof -
  from location_valid [OF assms] obtain cs where
    cs: "children_at (root_children (model m)) location = Some cs"
    by blast
  show ?thesis
    using cs assms(2) by (simp add: setChildren_def priv_setChildren_spliced [OF cs])
qed

lemma setChildren_success:
  assumes "well_formed m" and "setChildren el chn oc od (m, u) = (Inr (), m', u')"
  shows "\<exists>location cs. getElementLocation m el = Inr location \<and>
           children_at (root_children (model m)) location = Some cs \<and>
           m' = spliced m location cs (preserveCollapseState m (sequence_of chn)) \<and>
           u' = user_after (callback_order (model m)) oc od
                  (forest (new_nodes m (preserveCollapseState m (sequence_of chn)))) (forest cs) u"
proof (cases "getElementLocation m el")
  case (Inl err)
  with assms(2) show ?thesis by (simp add: setChildren_def)
next
  case (Inr location)
  from setChildren_located [OF assms(1) Inr, of chn oc od u] assms(2) Inr show ?thesis
    by auto
qed

lemma well_formed_setChildren:
  assumes "well_formed m" and "setChildren el chn oc od (m, u) = (r, m', u')"
  shows "well_formed m'"
proof (cases "getElementLocation m el")
  case (Inl err)
  with assms show ?thesis by (simp add: setChildren_def)
next
  case (Inr location)
  from setChildren_located [OF assms(1) Inr, of chn oc od u] assms show ?thesis
    by (auto intro: well_formed_spliced)
qed

lemma reconciled_keys:
  "set (map el_key (el_forest (preserveCollapseState m ds))) = reconciled m ` set (el_forest ds)"
proof -
  have "set_mset (mset (map el_key (el_forest (preserveCollapseState m ds)))) =
        set_mset (mset (map (reconciled m) (el_forest ds)))"
    by (simp only: preserve_keys)
  then show ?thesis by simp
qed

lemma reconciled_same:
  "el_key a = el_key b \<Longrightarrow> reconciled m a = reconciled m b"
  by (simp add: el_key_def reconciled_def split: option.splits)

lemma flags_after_setChildren:
  assumes "well_formed m" and "setChildren el chn oc od (m, u) = (Inr (), m', u')"
    and "d \<in> set (el_forest (sequence_of chn))"
    and "\<forall>d' \<in> set (el_forest (sequence_of chn)). el_element d' = el_element d \<longrightarrow> el_key d' = el_key d"
  shows "isCollapsed m' (Some (el_element d)) =
           Inr (case el_collapsed d of
                  Some b \<Rightarrow> b
                | None \<Rightarrow> (case existing_node m (el_element d) of
                             Some n \<Rightarrow> collapsed n
                           | None \<Rightarrow> default_collapsed (model m)))"
    and "isCollapsible m' (Some (el_element d)) =
           Inr (case el_collapsible d of
                  Some b \<Rightarrow> b
                | None \<Rightarrow> (case existing_node m (el_element d) of
                             Some n \<Rightarrow> collapsible n
                           | None \<Rightarrow> default_collapsible (model m)))"
proof -
  let ?chn = "preserveCollapseState m (sequence_of chn)"
  from setChildren_success [OF assms(1,2)] obtain location cs where
    s: "children_at (root_children (model m)) location = Some cs" "m' = spliced m location cs ?chn"
    by blast
  have "reconciled m d \<in> set (map el_key (el_forest ?chn))"
    unfolding reconciled_keys using assms(3) by simp
  then obtain d1 where d1: "d1 \<in> set (el_forest ?chn)" "el_key d1 = reconciled m d"
    by auto
  have e1: "el_element d1 = el_element d"
    using d1(2) by (auto simp: el_key_def reconciled_def split: option.splits)
  have u: "\<forall>d' \<in> set (el_forest ?chn). el_element d' = el_element d1 \<longrightarrow> el_key d' = el_key d1"
  proof (intro ballI impI)
    fix d' assume a: "d' \<in> set (el_forest ?chn)" "el_element d' = el_element d1"
    then have "el_key d' \<in> reconciled m ` set (el_forest (sequence_of chn))"
      unfolding reconciled_keys[symmetric] by simp
    then obtain d2 where d2: "d2 \<in> set (el_forest (sequence_of chn))" "el_key d' = reconciled m d2"
      by auto
    then have "el_element d2 = el_element d"
      using a(2) e1 by (auto simp: el_key_def reconciled_def split: option.splits)
    with assms(4) d2(1) have "el_key d2 = el_key d" by blast
    then have "reconciled m d2 = reconciled m d" by (rule reconciled_same)
    with d2(2) d1(2) show "el_key d' = el_key d1"
      by simp
  qed
  note f = flags_after_spliced [OF assms(1) s(1) d1(1) u, folded s(2), unfolded e1]
  have c: "el_collapsed d1 = snd (snd (reconciled m d))" "el_collapsible d1 = fst (snd (reconciled m d))"
    using d1(2) [symmetric] by (simp_all add: el_key_def)
  show "isCollapsed m' (Some (el_element d)) =
           Inr (case el_collapsed d of
                  Some b \<Rightarrow> b
                | None \<Rightarrow> (case existing_node m (el_element d) of
                             Some n \<Rightarrow> collapsed n
                           | None \<Rightarrow> default_collapsed (model m)))"
    unfolding f(1) c by (simp add: reconciled_def split: option.splits)
  show "isCollapsible m' (Some (el_element d)) =
           Inr (case el_collapsible d of
                  Some b \<Rightarrow> b
                | None \<Rightarrow> (case existing_node m (el_element d) of
                             Some n \<Rightarrow> collapsible n
                           | None \<Rightarrow> default_collapsible (model m)))"
    unfolding f(2) c by (simp add: reconciled_def split: option.splits)
qed

lemma pcs_Nil [simp]: "preserveCollapseState m [] = []"
  by (subst preserveCollapseState.simps) (simp split: option.splits add: mergeSort.simps)

lemma well_formed_setChildren_result:
  assumes "well_formed m"
  shows "well_formed (fst (snd (setChildren el chn oc od (m, u))))"
proof -
  obtain r m' u' where "setChildren el chn oc od (m, u) = (r, m', u')"
    by (metis prod_cases3)
  with well_formed_setChildren [OF assms this] show ?thesis by simp
qed

lemma setChildren_root:
  assumes "well_formed m"
  shows "setChildren None chn oc od (m, u) =
           (Inr (), fst (snd (setChildren None chn oc od (m, u))), snd (snd (setChildren None chn oc od (m, u))))"
proof -
  have "getElementLocation m None = Inr []"
    by (simp add: getElementLocation_def)
  from setChildren_located [OF assms this, of chn oc od u] show ?thesis
    by auto
qed

lemmas run_defs =
  setChildren_def getElementLocation_def priv_setChildren_def splice_def
  preserveCollapseState.simps [of _ "_ # _"] existing_node_def new_model_def sequence_of_def
  priv_onDidCreateNode_def priv_onDidDeleteNode_def Let_def engine_getNodeLocation_def deref_def
  isCollapsed_def isCollapsible_def engine_isCollapsed_def engine_isCollapsible_def engine_getNode_def
  engine_result_def has_def getNode_def getNodeLocation_def root_node_def

lemmas abc_defs = abc_model_def identity_model_def key_of_def

lemma well_formed_abc_model: "well_formed abc_model"
  unfolding abc_model_def identity_model_def
  by (rule well_formed_setChildren_result [OF well_formed_new_model])

lemma distinct_count_le: "distinct xs \<longleftrightarrow> (\<forall>a. count (mset xs) a \<le> 1)"
proof -
  have "count (mset xs) a = (if a \<in> set xs then 1 else 0) \<longleftrightarrow> count (mset xs) a \<le> 1" for a
  proof (cases "a \<in> set xs")
    case True
    then have "0 < count (mset xs) a" by simp
    then show ?thesis unfolding if_P [OF True] by linarith
  next
    case False
    then have "count (mset xs) a = 0" by (simp add: count_eq_zero_iff)
    then show ?thesis unfolding if_not_P [OF False] by linarith
  qed
  then show ?thesis
    unfolding distinct_count_atmost_1 by simp
qed

lemma forest_nids_sub:
  assumes "children_at cs p = Some old" and "distinct (map nid (forest cs))"
  shows "distinct (map nid (forest old))"
proof -
  have "mset (map node_label (forest (replace_children p [] cs))) + mset (map node_label (forest old)) =
        mset (map node_label (forest cs))"
    using labels_replace [OF assms(1), of "[]"] by simp
  then have "mset (map nid (forest (replace_children p [] cs))) + mset (map nid (forest old)) =
             mset (map nid (forest cs))"
    unfolding nid_mset by (metis image_mset_union)
  then have "count (mset (map nid (forest old))) a \<le> count (mset (map nid (forest cs))) a" for a
    by (metis count_union le_add2)
  with assms(2) show ?thesis
    unfolding distinct_count_le by (meson le_trans)
qed

lemma distinct_map_nid: "distinct (map nid xs) \<Longrightarrow> distinct xs"
  by (simp add: distinct_map)

lemma has_present:
  assumes "well_formed m" and "el = None \<or> has m el"
  shows "\<exists>location cs. getElementLocation m el = Inr location \<and>
           children_at (root_children (model m)) location = Some cs"
proof (cases el)
  case None
  then show ?thesis by (simp add: getElementLocation_def)
next
  case (Some e)
  with assms(2) obtain k where "nodes m e = Some k"
    by (auto simp: has_def)
  from present_node [OF assms(1) this] Some show ?thesis
    by (auto dest: node_at_children_at)
qed

lemma reconciled_element [simp]: "fst (reconciled m d) = el_element d"
  by (simp add: reconciled_def split: option.splits)

lemma filled_element [simp]: "fst (filled dcb dcd d) = el_element d"
  by (simp add: filled_def)

lemma element_flags: "element n = fst (node_flags n)"
  by (simp add: node_flags_def)

lemma new_nodes_elements:
  "map element (forest (new_nodes m chn)) = map el_element (el_forest chn)"
proof -
  have "map fst (map node_flags (forest (new_nodes m chn))) =
        map fst (map (filled (default_collapsible (model m)) (default_collapsed (model m))) (el_forest chn))"
    by (simp only: new_nodes_flags)
  then show ?thesis
    by (simp add: comp_def node_flags_def)
qed

lemma preserved_elements:
  "mset (map el_element (el_forest (preserveCollapseState m ds))) = mset (map el_element (el_forest ds))"
proof -
  have "image_mset fst (mset (map el_key (el_forest (preserveCollapseState m ds)))) =
        image_mset fst (mset (map (reconciled m) (el_forest ds)))"
    by (simp only: preserve_keys)
  then show ?thesis
    by (simp add: multiset.map_comp comp_def el_key_def)
qed

lemma created_elements:
  "mset (map element (forest (new_nodes m (preserveCollapseState m ds)))) =
   mset (map el_element (el_forest ds))"
  by (simp only: new_nodes_elements preserved_elements)

lemma created_elements_set:
  "element ` set (forest (new_nodes m (preserveCollapseState m ds))) = el_element ` set (el_forest ds)"
proof -
  have "set_mset (mset (map element (forest (new_nodes m (preserveCollapseState m ds))))) =
        set_mset (mset (map el_element (el_forest ds)))"
    by (simp only: created_elements)
  then show ?thesis by simp
qed

lemma new_entry:
  assumes "well_formed m" and "children_at (root_children (model m)) location = Some cs"
    and "k \<in> key ` set (forest (new_nodes m chn))"
    and "\<And>a b. node_label a = node_label b \<Longrightarrow> key a = key b"
  shows "\<exists>n \<in> set (forest (root_children (model (spliced m location cs chn)))).
           key n = k \<and> index_after key (forest (new_nodes m chn)) (forest cs) base k = Some (nid n) \<and>
           nid n \<notin> nid ` set (forest (root_children (model m)))"
proof -
  from index_after_created [OF assms(3), of "forest cs" base] obtain c where
    c: "c \<in> set (forest (new_nodes m chn))" "key c = k"
       "index_after key (forest (new_nodes m chn)) (forest cs) base k = Some (nid c)"
    by blast
  from new_nodes_in_tree [OF assms(1,2) c(1)] obtain n where
    n: "n \<in> set (forest (root_children (model (spliced m location cs chn))))" "node_label n = node_label c"
    by blast
  have "nid c \<notin> nid ` set (forest (root_children (model m)))"
    using new_nodes_fresh [OF assms(1), of chn] c(1) by blast
  moreover have "nid n = nid c" "key n = key c"
    using assms(4) [OF n(2)] label_sel [OF n(2)] by simp_all
  ultimately have "key n = k \<and> index_after key (forest (new_nodes m chn)) (forest cs) base k = Some (nid n) \<and>
           nid n \<notin> nid ` set (forest (root_children (model m)))"
    using c(2,3) by simp
  with n(1) show ?thesis ..
qed

lemma abc_tree:
  "root_children (model abc_model) =
     [Node 1 1 False False [], Node 2 2 False False [], Node 3 3 False True []]"
  by (simp add: abc_defs run_defs)

lemma cba_tree:
  "root_children (model cba_model) =
     [Node 4 13 False True [], Node 5 2 False False [], Node 6 1 False False []]"
  by (simp add: cba_model_def cba_children_def abc_defs run_defs)

lemma consistent_total: "consistent c \<Longrightarrow> \<not> c y x < 0 \<Longrightarrow> c x y \<le> 0"
proof -
  assume a: "consistent c" "\<not> c y x < 0"
  from a(1) have "c x y < 0 \<longleftrightarrow> 0 < c y x" "c y x < 0 \<longleftrightarrow> 0 < c x y"
    unfolding consistent_def by blast+
  with a(2) show ?thesis by linarith
qed

lemma consistent_trans: "consistent c \<Longrightarrow> c a b \<le> 0 \<Longrightarrow> c b d \<le> 0 \<Longrightarrow> c a d \<le> 0"
  unfolding consistent_def by blast

lemma consistent_less_le: "consistent c \<Longrightarrow> c a b < 0 \<Longrightarrow> \<not> c b a \<le> 0"
proof -
  assume a: "consistent c" "c a b < 0"
  from a(1) have "c a b < 0 \<longleftrightarrow> 0 < c b a"
    unfolding consistent_def by blast
  with a(2) show ?thesis by linarith
qed

lemma consistent_sym: "consistent c \<Longrightarrow> c a b = 0 \<Longrightarrow> c b a = 0"
proof -
  assume a: "consistent c" "c a b = 0"
  from a(1) have "c a b < 0 \<longleftrightarrow> 0 < c b a" "c b a < 0 \<longleftrightarrow> 0 < c a b"
    unfolding consistent_def by blast+
  with a(2) show ?thesis by linarith
qed

lemma consistent_refl: "consistent c \<Longrightarrow> c a a = 0"
proof -
  assume "consistent c"
  then have "c a a < 0 \<longleftrightarrow> 0 < c a a"
    unfolding consistent_def by blast
  then show ?thesis by linarith
qed

lemma ordered_merge_runs:
  "consistent c \<Longrightarrow> ordered c xs \<Longrightarrow> ordered c ys \<Longrightarrow> ordered c (merge_runs c xs ys)"
proof (induction c xs ys rule: merge_runs.induct)
  case (1 c ys)
  then show ?case by simp
next
  case (2 c x xs)
  then show ?case by simp
next
  case (3 c x xs y ys)
  note con = \<open>consistent c\<close>
  from 3(4) have ox: "ordered c xs" and hx: "\<forall>z \<in> set xs. c x z \<le> 0" by simp_all
  from 3(5) have oy: "ordered c ys" and hy: "\<forall>z \<in> set ys. c y z \<le> 0" by simp_all
  show ?case
  proof (cases "c y x < 0")
    case True
    then have yx: "c y x \<le> 0" by simp
    have "c y z \<le> 0" if "z \<in> set xs" for z
      using consistent_trans [OF con yx] hx that by blast
    with True yx hy 3(1) [OF True con 3(4) oy] show ?thesis
      by auto
  next
    case False
    then have xy: "c x y \<le> 0"
      by (rule consistent_total [OF con])
    have "c x z \<le> 0" if "z \<in> set ys" for z
      using consistent_trans [OF con xy] hy that by blast
    with False xy hx 3(2) [OF False con ox 3(5)] show ?thesis
      by auto
  qed
qed

lemma ordered_take_drop: "ordered c xs \<Longrightarrow> ordered c (take n xs) \<and> ordered c (drop n xs)"
proof -
  assume "ordered c xs"
  then have "ordered c (take n xs @ drop n xs)" by simp
  then show ?thesis unfolding sorted_wrt_append by blast
qed

lemma ordered_mergeSort:
  "consistent c \<Longrightarrow> ordered c (mergeSort c xs)"
proof (induction c xs rule: mergeSort.induct)
  case (1 c xs)
  show ?case
  proof (cases "length xs \<le> 1")
    case True
    then have "mergeSort c xs = xs"
      by (subst mergeSort.simps) simp
    moreover from True have "xs = [] \<or> (\<exists>x. xs = [x])"
      by (cases xs) auto
    ultimately show ?thesis
      by auto
  next
    case False
    with 1 show ?thesis
      by (subst mergeSort.simps) (simp add: ordered_merge_runs)
  qed
qed

lemma stable_merge_runs:
  "consistent c \<Longrightarrow> ordered c xs \<Longrightarrow>
   filter (\<lambda>z. c k z = 0) (merge_runs c xs ys) = filter (\<lambda>z. c k z = 0) xs @ filter (\<lambda>z. c k z = 0) ys"
proof (induction c xs ys rule: merge_runs.induct)
  case (1 c ys)
  then show ?case by simp
next
  case (2 c x xs)
  then show ?case by simp
next
  case (3 c x xs y ys)
  note con = \<open>consistent c\<close>
  from 3(4) have ox: "ordered c xs" and hx: "\<forall>z \<in> set xs. c x z \<le> 0" by simp_all
  show ?case
  proof (cases "c y x < 0")
    case True
    note IH = 3(1) [OF True con 3(4)]
    show ?thesis
    proof (cases "c k y = 0")
      case ky: True
      have "c k z \<noteq> 0" if z: "z \<in> set (x # xs)" for z
      proof
        assume kz: "c k z = 0"
        have xz: "c x z \<le> 0"
          using z hx consistent_refl [OF con, of x] by auto
        have "c z k \<le> 0"
          using consistent_sym [OF con kz] by simp
        then have "c z y \<le> 0"
          using consistent_trans [OF con _ _, of z k y] ky by simp
        with xz have "c x y \<le> 0"
          by (rule consistent_trans [OF con])
        with consistent_less_le [OF con True] show False by simp
      qed
      then have "filter (\<lambda>z. c k z = 0) (x # xs) = []"
        by (simp only: filter_empty_conv) blast
      with True ky IH show ?thesis by simp
    next
      case False
      with True IH show ?thesis by simp
    qed
  next
    case False
    with 3(2) [OF False con ox] show ?thesis by simp
  qed
qed

lemma stable_mergeSort:
  "consistent c \<Longrightarrow> filter (\<lambda>z. c k z = 0) (mergeSort c xs) = filter (\<lambda>z. c k z = 0) xs"
proof (induction c xs rule: mergeSort.induct)
  case (1 c xs)
  show ?case
  proof (cases "length xs \<le> 1")
    case True
    then have "mergeSort c xs = xs"
      by (subst mergeSort.simps) simp
    then show ?thesis by simp
  next
    case False
    let ?l = "take (length xs div 2) xs" and ?r = "drop (length xs div 2) xs"
    have "mergeSort c xs = merge_runs c (mergeSort c ?l) (mergeSort c ?r)"
      using False by (subst mergeSort.simps) simp
    then have "filter (\<lambda>z. c k z = 0) (mergeSort c xs) =
               filter (\<lambda>z. c k z = 0) (mergeSort c ?l) @ filter (\<lambda>z. c k z = 0) (mergeSort c ?r)"
      using stable_merge_runs [OF 1(3) ordered_mergeSort [OF 1(3)]] by simp
    also have "\<dots> = filter (\<lambda>z. c k z = 0) ?l @ filter (\<lambda>z. c k z = 0) ?r"
      using 1(1,2) [OF False 1(3)] by simp
    also have "\<dots> = filter (\<lambda>z. c k z = 0) (?l @ ?r)"
      by (simp only: filter_append)
    also have "?l @ ?r = xs"
      by (rule append_take_drop_id)
    finally show ?thesis .
  qed
qed

lemma map_merge_runs:
  "map f (merge_runs (\<lambda>a b. c (f a) (f b)) xs ys) = merge_runs c (map f xs) (map f ys)"
  by (induction "\<lambda>a b. c (f a) (f b)" xs ys rule: merge_runs.induct) simp_all

lemma map_mergeSort:
  "map f (mergeSort (\<lambda>a b. c (f a) (f b)) xs) = mergeSort c (map f xs)"
proof (induction "\<lambda>a b. c (f a) (f b)" xs rule: mergeSort.induct)
  case (1 xs)
  show ?case
  proof (cases "length xs \<le> 1")
    case True
    then show ?thesis
      by (subst mergeSort.simps, subst (2) mergeSort.simps) simp
  next
    case False
    with 1 show ?thesis
      by (subst mergeSort.simps, subst (2) mergeSort.simps) (simp add: map_merge_runs take_map drop_map)
  qed
qed

lemma map_insert_sorted:
  "map f (insert_sorted (\<lambda>a b. c (f a) (f b)) x ys) = insert_sorted c (f x) (map f ys)"
  by (induction ys) simp_all

lemma map_array_sort:
  "map f (array_sort (\<lambda>a b. c (f a) (f b)) xs) = array_sort c (map f xs)"
  by (induction xs) (simp_all add: array_sort_def map_insert_sorted)

lemma merge_runs_Nil2 [simp]: "merge_runs c xs [] = xs"
  by (cases xs) simp_all






lemma preserved_roots:
  "map el_element (preserveCollapseState m ds) =
     map el_element (case sorter m of None \<Rightarrow> ds
                     | Some cmp \<Rightarrow> mergeSort (\<lambda>a b. cmp (el_element a) (el_element b)) ds)"
  by (subst preserveCollapseState.simps) (simp add: comp_def split: option.splits)

lemma new_nodes_roots: "map element (new_nodes m chn) = map el_element chn"
  by (simp add: new_nodes_def roots_created)

lemma consistent_compare_tens: "consistent compare_tens"
  by (simp add: consistent_def compare_tens_def)

lemma tens_tree: "map element (root_children (model tens_sorted)) = [12, 11, 21, 25]"
  by (simp add: tens_sorted_def tens_model_def tens_children_def run_defs mergeSort.simps compare_tens_def)

lemma resort_located:
  assumes "well_formed m" and "sorter m = Some cmp" and "getElementLocation m el = Inr location"
  shows "\<exists>cs. children_at (root_children (model m)) location = Some cs \<and>
           resort el recursive m = (Inr (), spliced m location cs (resortChildren cmp cs recursive True))"
proof -
  from location_valid [OF assms(1,3)] obtain cs where
    cs: "children_at (root_children (model m)) location = Some cs"
    by blast
  show ?thesis
    using cs assms(2,3) by (simp add: resort_def priv_setChildren_spliced [OF cs])
qed

lemma well_formed_resort:
  assumes "well_formed m" and "resort el recursive m = (r, m')"
  shows "well_formed m'"
proof (cases "sorter m")
  case None
  with assms show ?thesis by (simp add: resort_def)
next
  case (Some cmp)
  show ?thesis
  proof (cases "getElementLocation m el")
    case (Inl err)
    with Some assms show ?thesis by (simp add: resort_def)
  next
    case (Inr location)
    from resort_located [OF assms(1) Some Inr, of recursive] assms show ?thesis
      by (auto intro: well_formed_spliced)
  qed
qed

lemma describe_sel:
  "describe n = TreeElement (element n) (Some (collapsible n)) (Some (collapsed n)) (map describe (children n))"
  by (cases n) simp

lemma resortChildren_flat:
  "resortChildren cmp cs False False = map describe cs"
proof (induction cmp cs "False" "False" rule: resortChildren.induct)
  case (1 cmp childrenNodes)
  then show ?case
    by (subst resortChildren.simps) (simp add: describe_sel [symmetric] cong: map_cong)
qed

lemma resortChildren_first:
  "resortChildren cmp cs False True = map describe (array_sort (\<lambda>a b. cmp (element a) (element b)) cs)"
  by (subst resortChildren.simps) (simp add: resortChildren_flat describe_sel [symmetric])

lemma describe_created:
  "describe (createTreeNode dcb dcd k (describe n)) = describe n"
proof (induction n arbitrary: k)
  case (Node i e cb cd cs)
  have "map describe (createTreeNodes dcb dcd j (map describe xs)) = map describe xs"
    if "set xs \<subseteq> set cs" for xs j
    using that
  proof (induction xs arbitrary: j)
    case Nil
    then show ?case by simp
  next
    case (Cons x xs)
    then show ?case
      using Node [of x] by simp
  qed
  then show ?case by simp
qed

lemma describe_created_list:
  "map describe (createTreeNodes dcb dcd k (map describe ns)) = map describe ns"
  by (induction ns arbitrary: k) (simp_all add: describe_created)

lemma replace_children_twice:
  "replace_children p a (replace_children p b cs) = replace_children p a cs"
  by (induction p arbitrary: cs) simp_all

lemma well_formed_sorter_update [simp]: "well_formed (m\<lparr>sorter := s\<rparr>) = well_formed m"
  by (simp add: well_formed_def)

lemma well_formed_reordered_model: "well_formed reordered_model"
  unfolding reordered_model_def descending_model_def
  by (simp add: well_formed_setChildren_result [OF well_formed_new_model])

lemma reordered_tree:
  "root_children (model reordered_model) =
     [Node 1 2 False False [Node 2 9 False False [], Node 3 8 False False []],
      Node 4 1 False False [Node 5 7 False False [], Node 6 6 False False []]]"
  by (simp add: reordered_model_def descending_model_def family_def run_defs mergeSort.simps compare_rev_def)





lemma describe_element [simp]: "el_element (describe n) = element n"
  by (cases n) simp



lemma resortChildren_Nil [simp]: "resortChildren cmp [] recursive first = []"
  by (subst resortChildren.simps) (simp add: array_sort_def)

lemma resort_root_tree:
  assumes "well_formed m" and "sorter m = Some cmp"
  shows "resort None recursive m =
           (Inr (), spliced m [] (root_children (model m))
                      (resortChildren cmp (root_children (model m)) recursive True))"
proof -
  have "getElementLocation m None = Inr []"
    by (simp add: getElementLocation_def)
  from resort_located [OF assms this, of recursive] show ?thesis
    by simp
qed



lemma reordered_sorter: "sorter reordered_model = Some compare_nat"
  by (simp add: reordered_model_def)



lemma removed_gone:
  assumes "well_formed m" and "children_at (root_children (model m)) location = Some cs"
    and "n \<in> set (forest (root_children (model (spliced m location cs chn))))"
  shows "nid n \<notin> nid ` set (forest cs)"
proof
  let ?rc = "root_children (model m)"
  let ?A' = "mset (map nid (forest (replace_children location (new_nodes m chn) ?rc)))"
  let ?D = "mset (map nid (forest cs))"
  let ?A = "mset (map nid (forest ?rc))"
  let ?C = "mset (map nid (forest (new_nodes m chn)))"
  assume d: "nid n \<in> nid ` set (forest cs)"
  have eq: "?A' + ?D = ?A + ?C"
    unfolding nid_mset using labels_replace [OF assms(2), of "new_nodes m chn"]
    by (metis image_mset_union)
  have c: "count ?A' (nid n) + count ?D (nid n) = count ?A (nid n) + count ?C (nid n)"
    using eq by (metis count_union)
  have "distinct (map nid (forest ?rc))"
    using assms(1) by (simp add: well_formed_def)
  then have a: "count ?A (nid n) \<le> 1"
    by (simp add: distinct_count_le)
  have "nid n \<in> nid ` set (forest ?rc)"
    using d children_at_in_forest [OF assms(2)] by blast
  then have "nid n \<notin> nid ` set (forest (new_nodes m chn))"
    using new_nodes_fresh [OF assms(1), of chn] by blast
  then have n: "count ?C (nid n) = 0"
    by (simp add: count_eq_zero_iff)
  have "0 < count ?D (nid n)"
    using d by simp
  with c a n have "count ?A' (nid n) = 0"
    by linarith
  then have "nid n \<notin> nid ` set (forest (replace_children location (new_nodes m chn) ?rc))"
    by (simp add: count_eq_zero_iff)
  with assms(3) show False
    by simp
qed

lemma exact_spliced:
  assumes "well_formed m" and "children_at (root_children (model m)) location = Some cs"
    and ex: "exact_on key idx (forest (root_children (model m)))"
    and kl: "\<And>a b. node_label a = node_label b \<Longrightarrow> key a = key b"
    and dk: "distinct (map key (forest (new_nodes m chn)))"
    and fr: "\<forall>n \<in> set (forest (root_children (model m))).
               key n \<in> key ` set (forest (new_nodes m chn)) \<longrightarrow> n \<in> set (forest cs)"
  shows "exact_on key (index_after key (forest (new_nodes m chn)) (forest cs) idx)
           (forest (root_children (model (spliced m location cs chn))))"
proof -
  let ?rc = "root_children (model m)" and ?rc' = "root_children (model (spliced m location cs chn))"
  let ?new = "forest (new_nodes m chn)"
  let ?idx' = "index_after key ?new (forest cs) idx"
  have d: "distinct (map nid (forest ?rc))"
    using assms(1) by (simp add: well_formed_def)
  have one: "?idx' (key n) = Some (nid n)" if n: "n \<in> set (forest ?rc')" for n
  proof -
    from n have "node_label n \<in> node_label ` set (forest ?rc) \<union> node_label ` set ?new"
      using labels_replace_sets(1) [OF assms(2), of "new_nodes m chn"] by auto
    then consider c where "c \<in> set ?new" "node_label n = node_label c"
      | old where "old \<in> set (forest ?rc)" "node_label n = node_label old"
          "node_label n \<notin> node_label ` set ?new"
      by blast
    then show ?thesis
    proof cases
      case 1
      from index_after_created [of "key c" key ?new "forest cs" idx] 1(1)
      obtain c' where c': "c' \<in> set ?new" "key c' = key c" "?idx' (key c) = Some (nid c')"
        by auto
      have "c' = c"
        using dk c'(1,2) 1(1) by (auto simp: distinct_map dest: inj_onD)
      with c'(3) kl [OF 1(2)] label_sel [OF 1(2)] show ?thesis
        by simp
    next
      case 2
      have nk: "key n = key old" and ni: "nid n = nid old"
        using kl [OF 2(2)] label_sel [OF 2(2)] by simp_all
      have gone: "nid old \<notin> nid ` set (forest cs)"
        using removed_gone [OF assms(1,2) n] ni by simp
      then have "old \<notin> set (forest cs)"
        by blast
      with fr 2(1) have k1: "key old \<notin> key ` set ?new"
        by blast
      have k2: "key old \<notin> key ` set (forest cs)"
      proof
        assume "key old \<in> key ` set (forest cs)"
        then obtain del where del: "del \<in> set (forest cs)" "key del = key old"
          by auto
        then have "del \<in> set (forest ?rc)"
          using children_at_in_forest [OF assms(2)] by blast
        with ex del(2) 2(1) have "nid del = nid old"
          unfolding exact_on_def by (metis option.inject)
        with del(1) gone show False
          by (metis imageI)
      qed
      have "idx (key old) = Some (nid old)"
        using ex 2(1) unfolding exact_on_def by blast
      with k1 k2 have "?idx' (key old) = Some (nid old)"
        by (simp add: index_after_def find_None_image [THEN iffD2])
      with nk ni show ?thesis by simp
    qed
  qed
  have two: "\<exists>n \<in> set (forest ?rc'). nid n = v \<and> key n = k" if "?idx' k = Some v" for k v
    using index_after_cases [OF that]
  proof
    assume "\<exists>c \<in> set ?new. key c = k \<and> nid c = v"
    then obtain c where c: "c \<in> set ?new" "key c = k" "nid c = v" by blast
    from new_nodes_in_tree [OF assms(1,2) c(1)] obtain n where
      n: "n \<in> set (forest ?rc')" "node_label n = node_label c"
      by blast
    with c(2,3) kl [OF n(2)] label_sel [OF n(2)] show ?thesis
      by auto
  next
    assume a: "k \<notin> key ` set ?new \<and> k \<notin> key ` set (forest cs) \<and> idx k = Some v"
    with ex obtain old where old: "old \<in> set (forest ?rc)" "nid old = v" "key old = k"
      unfolding exact_on_def by blast
    have "node_label old \<notin> node_label ` set (forest cs)"
    proof
      assume "node_label old \<in> node_label ` set (forest cs)"
      then obtain del where "del \<in> set (forest cs)" "node_label old = node_label del"
        by auto
      with kl [of old del] old(3) a show False
        by (metis imageI)
    qed
    from kept_in_tree [OF assms(2) old(1) this, of chn] obtain n where
      n: "n \<in> set (forest ?rc')" "node_label n = node_label old"
      by blast
    with old(2,3) kl [OF n(2)] label_sel [OF n(2)] show ?thesis
      by auto
  qed
  from one two show ?thesis
    unfolding exact_on_def by blast
qed

lemma index_exact_new_model: "index_exact (new_model usr dcb dcd ord srt idp)"
proof -
  have f: "root_children (model (new_model usr dcb dcd ord srt idp)) = []"
    "nodes (new_model usr dcb dcd ord srt idp) = Map.empty"
    "nodesByIdentity (new_model usr dcb dcd ord srt idp) = Map.empty"
    by (simp_all add: new_model_def)
  show ?thesis
    unfolding index_exact_def exact_on_def f
    using well_formed_new_model [of usr dcb dcd ord srt idp] by (simp split: option.splits)
qed

lemma exact_inj:
  assumes "distinct (map nid ns)" and "exact_on key idx ns"
  shows "inj_on key (set ns)"
proof (rule inj_onI)
  fix a b assume a: "a \<in> set ns" and b: "b \<in> set ns" and k: "key a = key b"
  from assms(2) a b k have "nid a = nid b"
    unfolding exact_on_def by (metis option.inject)
  with assms(1) a b show "a = b"
    by (rule distinct_nid_eq)
qed

lemma size_exact:
  assumes "index_exact m"
  shows "size_of m = length (forest (root_children (model m)))"
proof -
  let ?ns = "forest (root_children (model m))"
  from assms have d: "distinct (map nid ?ns)" and ex: "exact_on element (nodes m) ?ns"
    by (simp_all add: index_exact_def well_formed_def)
  have "dom (nodes m) = element ` set ?ns"
    using ex unfolding exact_on_def by (auto simp: dom_def) force
  then have "size_of m = card (element ` set ?ns)"
    by (simp add: size_of_def)
  also have "\<dots> = card (set ?ns)"
    by (rule card_image [OF exact_inj [OF d ex]])
  also have "\<dots> = length ?ns"
    using d by (simp add: distinct_card distinct_map_nid)
  finally show ?thesis .
qed

lemma index_exact_spliced:
  assumes "index_exact m" and "children_at (root_children (model m)) location = Some cs"
    and "distinct (map element (forest (new_nodes m chn)))"
    and "\<forall>n \<in> set (forest (root_children (model m))).
           element n \<in> element ` set (forest (new_nodes m chn)) \<longrightarrow> n \<in> set (forest cs)"
    and "\<And>getId. identityProvider m = Some getId \<Longrightarrow>
           distinct (map (\<lambda>n. getId (element n)) (forest (new_nodes m chn))) \<and>
           (\<forall>n \<in> set (forest (root_children (model m))).
              getId (element n) \<in> (\<lambda>n. getId (element n)) ` set (forest (new_nodes m chn)) \<longrightarrow>
              n \<in> set (forest cs))"
  shows "index_exact (spliced m location cs chn)"
proof -
  from assms(1) have w: "well_formed m" and ex: "exact_on element (nodes m) (forest (root_children (model m)))"
    by (simp_all add: index_exact_def)
  have kl: "\<And>a b :: 'a node. node_label a = node_label b \<Longrightarrow> element a = element b"
    by (simp add: node_label_def)
  have e: "exact_on element (nodes (spliced m location cs chn))
             (forest (root_children (model (spliced m location cs chn))))"
    using exact_spliced [OF w assms(2) ex kl assms(3,4)] by simp
  have i: "exact_on (\<lambda>n. getId (element n)) (nodesByIdentity (spliced m location cs chn))
             (forest (root_children (model (spliced m location cs chn))))"
    if idp: "identityProvider m = Some getId" for getId
  proof -
    have kl': "\<And>a b :: 'a node. node_label a = node_label b \<Longrightarrow> getId (element a) = getId (element b)"
      by (simp add: node_label_def)
    from assms(1) idp have ex': "exact_on (\<lambda>n. getId (element n)) (nodesByIdentity m)
        (forest (root_children (model m)))"
      by (simp add: index_exact_def)
    from assms(5) [OF idp] have dk: "distinct (map (\<lambda>n. getId (element n)) (forest (new_nodes m chn)))"
      and fr: "\<forall>n \<in> set (forest (root_children (model m))).
              getId (element n) \<in> (\<lambda>n. getId (element n)) ` set (forest (new_nodes m chn)) \<longrightarrow>
              n \<in> set (forest cs)"
      by blast+
    have "nodesByIdentity (spliced m location cs chn) =
          index_after (\<lambda>n. getId (element n)) (forest (new_nodes m chn)) (forest cs) (nodesByIdentity m)"
      using idp by (simp add: spliced_def)
    with exact_spliced [OF w assms(2) ex' kl' dk fr] show ?thesis
      by simp
  qed
  show ?thesis
    unfolding index_exact_def
    using well_formed_spliced [OF w assms(2), of chn] e i
    by (cases "identityProvider m") simp_all
qed

lemma forest_sum:
  "mset (map g (forest xs)) = sum_mset (image_mset (\<lambda>n. mset (map g (subtree n))) (mset xs))"
  by (induction xs) simp_all

lemma forest_perm:
  "mset xs = mset ys \<Longrightarrow> mset (map g (forest xs)) = mset (map g (forest ys))"
  by (simp only: forest_sum)

lemma el_forest_of_nodes:
  "(\<And>n. n \<in> set xs \<Longrightarrow> mset (map k (el_subtree (f n))) = mset (map r (subtree n))) \<Longrightarrow>
   mset (map k (el_forest (map f xs))) = mset (map r (forest xs))"
  by (induction xs) simp_all

lemma resorted_elements:
  "mset (map el_element (el_forest (resortChildren cmp cs recursive first))) =
   mset (map element (forest cs))"
proof (induction cmp cs recursive first rule: resortChildren.induct)
  case (1 cmp childrenNodes recursive first)
  let ?xs = "if recursive \<or> first
             then array_sort (\<lambda>a b. cmp (element a) (element b)) childrenNodes else childrenNodes"
  let ?f = "\<lambda>n. TreeElement (element n) (Some (collapsible n)) (Some (collapsed n))
                  (resortChildren cmp (children n) recursive False)"
  have xs: "mset ?xs = mset childrenNodes"
    by simp
  have sub: "mset (map el_element (el_subtree (?f n))) = mset (map element (subtree n))"
    if "n \<in> set ?xs" for n
    using 1 [OF that] by (simp add: subtree_forest [of n] el_forest_def [symmetric])
  have "resortChildren cmp childrenNodes recursive first = map ?f ?xs"
    by (subst resortChildren.simps) simp
  then have "mset (map el_element (el_forest (resortChildren cmp childrenNodes recursive first))) =
             mset (map el_element (el_forest (map ?f ?xs)))"
    by simp
  also have "\<dots> = mset (map element (forest ?xs))"
    by (rule el_forest_of_nodes) (rule sub)
  also have "\<dots> = mset (map element (forest childrenNodes))"
    by (rule forest_perm [OF xs])
  finally show ?case .
qed

lemma keys_of_created:
  assumes "mset (map el_element (el_forest chn)) = mset (map e xs)"
  shows "mset (map (\<lambda>n. key (element n)) (forest (new_nodes m chn))) = mset (map (\<lambda>x. key (e x)) xs)"
proof -
  have "mset (map (\<lambda>n. key (element n)) (forest (new_nodes m chn))) =
        image_mset key (mset (map element (forest (new_nodes m chn))))"
    by (simp add: multiset.map_comp comp_def)
  also have "\<dots> = image_mset key (mset (map e xs))"
    by (simp only: new_nodes_elements assms)
  also have "\<dots> = mset (map (\<lambda>x. key (e x)) xs)"
    by (simp add: multiset.map_comp comp_def)
  finally show ?thesis .
qed

lemma index_exact_unique:
  assumes "index_exact m" and "children_at (root_children (model m)) location = Some cs"
    and el: "mset (map el_element (el_forest chn)) = mset (map el_element (el_forest ds))"
    and "unique_keys (\<lambda>x. x) ds (forest (root_children (model m))) (forest cs)"
    and "\<forall>getId. identityProvider m = Some getId \<longrightarrow>
           unique_keys getId ds (forest (root_children (model m))) (forest cs)"
  shows "index_exact (spliced m location cs chn)"
proof (rule index_exact_spliced [OF assms(1,2)])
  have k: "mset (map (\<lambda>n. key (element n)) (forest (new_nodes m chn))) =
           mset (map (\<lambda>d. key (el_element d)) (el_forest ds))" for key :: "'a \<Rightarrow> 'k"
    by (rule keys_of_created [OF el])
  have s: "(\<lambda>n. key (element n)) ` set (forest (new_nodes m chn)) =
           (\<lambda>d. key (el_element d)) ` set (el_forest ds)" for key :: "'a \<Rightarrow> 'k"
    using k [of key] by (metis (no_types, lifting) mset_eq_setD set_map)
  show "distinct (map element (forest (new_nodes m chn)))"
    using assms(4) k [of "\<lambda>x. x"] unfolding unique_keys_def
    by (metis (no_types, lifting) mset_eq_imp_distinct_iff)
  show "\<forall>n \<in> set (forest (root_children (model m))).
           element n \<in> element ` set (forest (new_nodes m chn)) \<longrightarrow> n \<in> set (forest cs)"
    using assms(4) s [of "\<lambda>x. x"] unfolding unique_keys_def by simp
  show "distinct (map (\<lambda>n. getId (element n)) (forest (new_nodes m chn))) \<and>
        (\<forall>n \<in> set (forest (root_children (model m))).
           getId (element n) \<in> (\<lambda>n. getId (element n)) ` set (forest (new_nodes m chn)) \<longrightarrow>
           n \<in> set (forest cs))"
    if "identityProvider m = Some getId" for getId
  proof -
    from assms(5) that have u: "unique_keys getId ds (forest (root_children (model m))) (forest cs)"
      by blast
    have "distinct (map (\<lambda>n. getId (element n)) (forest (new_nodes m chn)))"
      using u k [of getId] unfolding unique_keys_def
      by (metis (no_types, lifting) mset_eq_imp_distinct_iff)
    moreover have "\<forall>n \<in> set (forest (root_children (model m))).
           getId (element n) \<in> (\<lambda>n. getId (element n)) ` set (forest (new_nodes m chn)) \<longrightarrow>
           n \<in> set (forest cs)"
      using u unfolding unique_keys_def s [of getId] by simp
    ultimately show ?thesis ..
  qed
qed

lemma exact_resorted:
  assumes "distinct (map nid (forest all))" and "exact_on key idx (forest all)"
    and "set (forest cs) \<subseteq> set (forest all)" and "distinct (map nid (forest cs))"
    and "mset (map key created) = mset (map key (forest cs))"
  shows "distinct (map key created) \<and>
         (\<forall>n \<in> set (forest all). key n \<in> key ` set created \<longrightarrow> n \<in> set (forest cs))"
proof -
  have inj: "inj_on key (set (forest all))"
    by (rule exact_inj [OF assms(1,2)])
  then have "inj_on key (set (forest cs))"
    using assms(3) by (rule inj_on_subset)
  then have "distinct (map key (forest cs))"
    using assms(4) by (simp add: distinct_map)
  with assms(5) have d: "distinct (map key created)"
    by (metis mset_eq_imp_distinct_iff)
  have s: "key ` set created = key ` set (forest cs)"
    using assms(5) by (metis mset_eq_setD set_map)
  have "n \<in> set (forest cs)" if n: "n \<in> set (forest all)" "key n \<in> key ` set created" for n
  proof -
    from n(2) s obtain c where c: "c \<in> set (forest cs)" "key c = key n"
      by auto
    with assms(3) have "c \<in> set (forest all)" by blast
    with inj n(1) c(2) have "c = n"
      by (auto dest: inj_onD)
    with c(1) show ?thesis by simp
  qed
  with d show ?thesis by blast
qed

lemma index_exact_resorted:
  assumes "index_exact m" and "children_at (root_children (model m)) location = Some cs"
    and el: "mset (map el_element (el_forest chn)) = mset (map element (forest cs))"
  shows "index_exact (spliced m location cs chn)"
proof (rule index_exact_spliced [OF assms(1,2)])
  let ?all = "root_children (model m)"
  from assms(1) have d: "distinct (map nid (forest ?all))"
    and ex: "exact_on element (nodes m) (forest ?all)"
    by (simp_all add: index_exact_def well_formed_def)
  have sub: "set (forest cs) \<subseteq> set (forest ?all)"
    by (rule children_at_in_forest [OF assms(2)])
  have dc: "distinct (map nid (forest cs))"
    by (rule forest_nids_sub [OF assms(2) d])
  have k: "mset (map (\<lambda>n. key (element n)) (forest (new_nodes m chn))) =
           mset (map (\<lambda>n. key (element n)) (forest cs))" for key :: "'a \<Rightarrow> 'k"
    by (rule keys_of_created [OF el])
  from exact_resorted [OF d ex sub dc, of "forest (new_nodes m chn)"] k [of "\<lambda>x. x"]
  show "distinct (map element (forest (new_nodes m chn)))"
    and "\<forall>n \<in> set (forest ?all).
           element n \<in> element ` set (forest (new_nodes m chn)) \<longrightarrow> n \<in> set (forest cs)"
    by simp_all
  show "distinct (map (\<lambda>n. getId (element n)) (forest (new_nodes m chn))) \<and>
        (\<forall>n \<in> set (forest ?all).
           getId (element n) \<in> (\<lambda>n. getId (element n)) ` set (forest (new_nodes m chn)) \<longrightarrow>
           n \<in> set (forest cs))"
    if "identityProvider m = Some getId" for getId
  proof -
    from assms(1) that have ex': "exact_on (\<lambda>n. getId (element n)) (nodesByIdentity m) (forest ?all)"
      by (simp add: index_exact_def)
    from exact_resorted [OF d ex' sub dc k [of getId]] show ?thesis .
  qed
qed

lemma index_exact_sorter_update [simp]: "index_exact (m\<lparr>sorter := s\<rparr>) = index_exact m"
  by (simp add: index_exact_def cong: option.case_cong)

lemma index_exact_well_formed: "index_exact m \<Longrightarrow> well_formed m"
  by (simp add: index_exact_def)

lemma reordered_resorted_size:
  "length (forest (new_nodes reordered_model
     (resortChildren compare_nat (root_children (model reordered_model)) False True))) = 6"
  unfolding reordered_tree
  by (simp add: resortChildren.simps [of _ "_ # _"] array_sort_def compare_nat_def new_nodes_def)

lemma node_at_children:
  "node_at cs p = Some n \<Longrightarrow> children_at cs p = Some (children n)"
  by (induction cs p rule: node_at.induct) (auto split: if_splits)

lemma node_at_replace:
  "node_at cs p = Some n \<Longrightarrow>
   node_at (replace_children p new cs) p =
     Some (Node (nid n) (element n) (collapsible n) (collapsed n) new)"
  by (induction cs p rule: node_at.induct) (auto split: if_splits)

lemma located_node:
  assumes "well_formed m" and "getElementLocation m el = Inr location"
  shows "\<exists>p cs. getNode m el = Inr p \<and> element p = el \<and>
           engine_getNode (model m) location = Some p \<and>
           children_at (root_children (model m)) location = Some cs \<and>
           children p = map (map_node Some) cs"
proof (cases el)
  case None
  with assms(2) have "location = []"
    by (simp add: getElementLocation_def)
  with None show ?thesis
    by (simp add: getNode_def engine_getNode_def engine_result_def root_node_def)
next
  case (Some e)
  with assms(2) obtain k where k: "nodes m e = Some k"
    by (cases "nodes m e") (auto simp: getElementLocation_def)
  from present_node [OF assms(1) k] obtain n location' where
    n: "element n = e" "deref (model m) k = Some n"
       "getElementLocation m (Some e) = Inr location'" "location' \<noteq> []"
       "node_at (root_children (model m)) location' = Some n"
    by blast
  from n(3) assms(2) Some have l: "location' = location"
    by simp
  from flags_present [OF assms(1) k] n(2) have g: "getNode m (Some e) = Inr (map_node Some n)"
    by auto
  have "engine_getNode (model m) location = Some (map_node Some n)"
    using n(4,5) l by (simp add: engine_getNode_def)
  moreover have "children_at (root_children (model m)) location = Some (children n)"
    using node_at_children [OF n(5)] l by simp
  moreover have "element (map_node Some n) = Some e" "children (map_node Some n) = map (map_node Some) (children n)"
    using n(1) by (cases n; simp)+
  ultimately show ?thesis
    using g Some by simp
qed

lemma located_after:
  assumes "engine_getNode (model m) location = Some p"
  shows "engine_getNode (model (spliced m location cs chn)) location =
           Some (Node (nid p) (element p) (collapsible p) (collapsed p)
                   (map (map_node Some) (new_nodes m chn)))"
proof (cases "location = []")
  case True
  with assms show ?thesis
    by (auto simp: engine_getNode_def root_node_def spliced_def)
next
  case False
  with assms obtain n where n: "node_at (root_children (model m)) location = Some n" "p = map_node Some n"
    by (auto simp: engine_getNode_def)
  have "map_node Some (Node (nid n) (element n) (collapsible n) (collapsed n) (new_nodes m chn)) =
        Node (nid p) (element p) (collapsible p) (collapsed p) (map (map_node Some) (new_nodes m chn))"
    unfolding n(2) by (cases n) simp
  with node_at_replace [OF n(1), of "new_nodes m chn"] False show ?thesis
    by (simp add: engine_getNode_def spliced_def)
qed

lemma getElementLocation_has:
  "getElementLocation m el = Inr location \<Longrightarrow> el = None \<or> has m el"
  by (cases el) (auto simp: getElementLocation_def has_def split: option.splits)

lemma setChildren_present:
  assumes "well_formed m" and "getElementLocation m el = Inr location"
  shows "setChildren el chn oc od (m, u) =
           (Inr (), fst (snd (setChildren el chn oc od (m, u))), snd (snd (setChildren el chn oc od (m, u))))"
  using setChildren_located [OF assms, of chn oc od u] by auto

lemma well_formed_lineage_model: "well_formed lineage_model"
  unfolding lineage_model_def
  by (simp add: well_formed_setChildren_result [OF well_formed_new_model])

lemma lineage_tree:
  "root_children (model lineage_model) =
     [Node 1 20 False False [],
      Node 2 10 False False
        [Node 3 4 False False [Node 4 8 False False [], Node 5 7 False False []],
         Node 6 3 False False [Node 7 6 False False [], Node 8 5 False False []]]]"
  by (simp add: lineage_model_def lineage_def run_defs mergeSort.simps compare_rev_def)

lemma lineage_nodes:
  "nodes lineage_model x =
     (if x = 5 then Some 8 else if x = 6 then Some 7 else if x = 3 then Some 6
      else if x = 7 then Some 5 else if x = 8 then Some 4 else if x = 4 then Some 3
      else if x = 10 then Some 2 else if x = 20 then Some 1 else None)"
  by (simp add: lineage_model_def lineage_def run_defs mergeSort.simps compare_rev_def)

lemma lineage_location: "getElementLocation lineage_model (Some 10) = Inr [1]"
  by (simp add: getElementLocation_def lineage_nodes engine_getNodeLocation_def lineage_tree)

lemma tens_sorted_tree:
  "root_children (model tens_sorted) =
     [Node 1 12 False False [], Node 2 11 False False [], Node 3 21 False False [], Node 4 25 False False []]"
  by (simp add: tens_sorted_def tens_model_def tens_children_def run_defs mergeSort.simps compare_tens_def)

lemma tens_sorted_nodes:
  "nodes tens_sorted x =
     (if x = 25 then Some 4 else if x = 21 then Some 3 else if x = 11 then Some 2
      else if x = 12 then Some 1 else None)"
  by (simp add: tens_sorted_def tens_model_def tens_children_def run_defs mergeSort.simps compare_tens_def)

lemma replace_children_same:
  "children_at cs p = Some c \<Longrightarrow> replace_children p c cs = cs"
proof (induction p arbitrary: cs)
  case Nil
  then show ?case by simp
next
  case (Cons i p)
  then have i: "i < length cs" and c: "children_at (children (cs ! i)) p = Some c"
    by (auto split: if_splits)
  have "Node (nid (cs ! i)) (element (cs ! i)) (collapsible (cs ! i)) (collapsed (cs ! i))
          (children (cs ! i)) = cs ! i"
    by (cases "cs ! i") simp
  with Cons.IH [OF c] i show ?case
    by simp
qed

lemma tree_from_frame:
  assumes "children_at cs p = Some c" and "replace_children p [] cs = frame"
  shows "cs = replace_children p c frame"
  using replace_children_same [OF assms(1)] replace_children_twice [of p c "[]" cs] assms(2)
  by simp

lemma getElementLocation_sorter_update [simp]:
  "getElementLocation (m\<lparr>sorter := s\<rparr>) el = getElementLocation m el"
  by (simp add: getElementLocation_def split: option.splits)

lemma well_formed_lineage_reordered: "well_formed lineage_reordered"
  by (simp add: lineage_reordered_def well_formed_lineage_model)

lemma well_formed_tens_sorted: "well_formed tens_sorted"
  unfolding tens_sorted_def tens_model_def
  by (simp add: well_formed_setChildren_result [OF well_formed_new_model])

lemma tens_sorted_fields:
  "sorter tens_sorted = Some compare_tens" "identityProvider tens_sorted = None"
  "next_nid (model tens_sorted) = 5" "default_collapsible (model tens_sorted) = False"
  "default_collapsed (model tens_sorted) = False"
  by (simp_all add: tens_sorted_def tens_model_def tens_children_def run_defs mergeSort.simps compare_tens_def)

lemma tens_sorted_location: "getElementLocation tens_sorted (Some 21) = Inr [2]"
  by (simp add: getElementLocation_def tens_sorted_nodes engine_getNodeLocation_def tens_sorted_tree)

lemma more_tens_nodes:
  "new_nodes tens_sorted (preserveCollapseState tens_sorted (sequence_of (Some more_tens))) =
     [Node 5 35 False False [], Node 6 31 False False [], Node 7 33 False False [], Node 8 42 False False []]"
  by (simp add: new_nodes_def tens_sorted_fields more_tens_def sequence_of_def
      preserveCollapseState.simps [of _ "_ # _"] existing_node_def tens_sorted_nodes
      mergeSort.simps compare_tens_def)

section \<open>Errors\<close>

lemma getElementLocation_absent:
  "nodes m e = None \<Longrightarrow> getElementLocation m (Some e) = Inl (TreeError (user m) (ElementNotFound e))"
  by (simp add: getElementLocation_def)

text \<open>
  C8, as amended. Given an element that the element index does not hold, every operation
  that resolves a path raises \<open>TreeError\<close> with "element not found" and leaves the model as it
  was, and so does \<open>getParentNodeLocation\<close> for the root sentinel (with its own message);
  \<open>resort\<close> does so only when a sorter is configured, and without one it returns normally,
  without looking the element up, also leaving the model as it was.
\<close>

theorem absent_element_raises:
  assumes "nodes m e = None"
  shows "setChildren (Some e) chn onCreate onDelete (m, u) = (Inl (TreeError (user m) (ElementNotFound e)), m, u)
       \<and> rerender ops (Some e) m = (Inl (TreeError (user m) (ElementNotFound e)), m)
       \<and> resort (Some e) recursive m =
           (case sorter m of None \<Rightarrow> (Inr (), m)
            | Some cmp \<Rightarrow> (Inl (TreeError (user m) (ElementNotFound e)), m))
       \<and> isCollapsed m (Some e) = Inl (TreeError (user m) (ElementNotFound e))
       \<and> setCollapsed ops (Some e) cd rec m = (Inl (TreeError (user m) (ElementNotFound e)), m)
       \<and> isCollapsible m (Some e) = Inl (TreeError (user m) (ElementNotFound e))
       \<and> setCollapsible ops (Some e) cb m = (Inl (TreeError (user m) (ElementNotFound e)), m)
       \<and> expandTo ops (Some e) m = (Inl (TreeError (user m) (ElementNotFound e)), m)
       \<and> getNode m (Some e) = Inl (TreeError (user m) (ElementNotFound e))
       \<and> getParentNodeLocation m (Some e) = Inl (TreeError (user m) (ElementNotFound e))
       \<and> getListIndex ops m (Some e) = Inl (TreeError (user m) (ElementNotFound e))
       \<and> getListRenderCount ops m (Some e) = Inl (TreeError (user m) (ElementNotFound e))
       \<and> getFirstElementChild ops m (Some e) = Inl (TreeError (user m) (ElementNotFound e))
       \<and> getLastElementAncestor ops m (Some e) = Inl (TreeError (user m) (ElementNotFound e))
       \<and> getParentNodeLocation m None = Inl (TreeError (user m) InvalidGetParentNodeLocationCall)"
  using assms getElementLocation_absent [OF assms]
  by (simp add: setChildren_def rerender_def resort_def isCollapsed_def setCollapsed_def
      isCollapsible_def setCollapsible_def expandTo_def getNode_def getParentNodeLocation_def
      getListIndex_def getListRenderCount_def getFirstElementChild_def getLastElementAncestor_def
      split: option.split)

theorem absent_element_raises_witness:
  "nodes empty_sorted 7 = None
   \<and> setChildren (Some 7) None None None (empty_sorted, ()) =
       (Inl (TreeError ''tree'' (ElementNotFound 7)), empty_sorted, ())
   \<and> resort (Some 7) True empty_sorted = (Inl (TreeError ''tree'' (ElementNotFound 7)), empty_sorted)
   \<and> isCollapsed empty_sorted (Some 7) = Inl (TreeError ''tree'' (ElementNotFound 7))
   \<and> getNode empty_sorted (Some 7) = Inl (TreeError ''tree'' (ElementNotFound 7))
   \<and> getParentNodeLocation empty_sorted None = Inl (TreeError ''tree'' InvalidGetParentNodeLocationCall)"
proof -
  have absent: "nodes empty_sorted 7 = None"
    by (simp add: empty_sorted_def new_model_def)
  have usr: "user empty_sorted = ''tree''" and srt: "sorter empty_sorted = Some compare_nat"
    by (simp_all add: empty_sorted_def new_model_def)
  show ?thesis
    using absent absent_element_raises [OF absent, of None None None "()" no_ops True None None None]
    by (simp add: usr srt)
qed

text \<open>
  The claim as stated fails for \<open>resort\<close>: on a model without a sorter it returns normally
  for an element that is not in the element index.
\<close>

theorem resort_absent_element_counterexample:
  "nodes empty_unsorted 7 = None \<and> resort (Some 7) True empty_unsorted = (Inr (), empty_unsorted)"
  by (simp add: resort_def empty_unsorted_def new_model_def)

section \<open>Collapse state across updates\<close>

text \<open>
  The properties below are about models that satisfy \<open>well_formed\<close>: node references are distinct
  and below the engine's next free reference, and every entry of the element index points at
  a node of the tree that carries the entry's element. A new model satisfies it
  (\<open>well_formed_new_model\<close>) and \<open>setChildren\<close> keeps it (\<open>well_formed_setChildren\<close>).
\<close>

text \<open>
  C1. An element \<open>e\<close> has a node before \<open>setChildren\<close>; the new descriptions mention
  \<open>e'\<close>, which is \<open>e\<close> itself or an element without a node of its own whose identity key the
  identity index maps to the node of \<open>e\<close>; no description of \<open>e'\<close> overrides \<open>collapsible\<close> or \<open>collapsed\<close>. Then \<open>isCollapsed\<close> and
  \<open>isCollapsible\<close> of \<open>e'\<close> after the call are those of \<open>e\<close> before it.
\<close>

theorem collapse_state_preserved:
  assumes "well_formed m"
    and "setChildren el chn onCreate onDelete (m, u) = (Inr (), m', u')"
    and "nodes m e = Some k"
    and "e' \<in> el_element ` set (el_forest (sequence_of chn))"
    and "\<forall>d \<in> set (el_forest (sequence_of chn)).
           el_element d = e' \<longrightarrow> el_collapsible d = None \<and> el_collapsed d = None"
    and "e' = e \<or>
         (nodes m e' = None \<and>
          (\<exists>getId. identityProvider m = Some getId \<and> nodesByIdentity m (getId e') = Some k))"
  shows "\<exists>cd cb. isCollapsed m (Some e) = Inr cd \<and> isCollapsed m' (Some e') = Inr cd \<and>
                 isCollapsible m (Some e) = Inr cb \<and> isCollapsible m' (Some e') = Inr cb"
proof -
  from flags_present [OF assms(1,3)] obtain n where
    n: "deref (model m) k = Some n" "isCollapsed m (Some e) = Inr (collapsed n)"
       "isCollapsible m (Some e) = Inr (collapsible n)"
    by blast
  have ex: "existing_node m e' = Some n"
    using assms(3,6) n(1) by (auto simp: existing_node_def)
  from assms(4) obtain d where d: "d \<in> set (el_forest (sequence_of chn))" "el_element d = e'"
    by auto
  with assms(5) have none: "el_collapsible d = None" "el_collapsed d = None"
    by auto
  have u: "\<forall>d' \<in> set (el_forest (sequence_of chn)). el_element d' = el_element d \<longrightarrow> el_key d' = el_key d"
    using assms(5) d(2) none by (simp add: el_key_def)
  from flags_after_setChildren [OF assms(1,2) d(1) u] d(2) none ex n(2,3) show ?thesis
    by simp
qed

theorem collapse_state_preserved_witness:
  "nodes abc_model 3 = Some 3 \<and> nodes abc_model 13 = None \<and> key_of 13 = key_of 3 \<and>
   isCollapsed abc_model (Some 3) = Inr True \<and> isCollapsed cba_model (Some 13) = Inr True \<and>
   isCollapsible abc_model (Some 3) = Inr False \<and> isCollapsible cba_model (Some 13) = Inr False"
proof -
  have run: "setChildren None (Some cba_children) None None (abc_model, ()) = (Inr (), cba_model, ())"
    using setChildren_root [OF well_formed_abc_model, of "Some cba_children" None None "()"]
    by (simp add: cba_model_def)
  have before: "nodes abc_model 3 = Some 3" "nodes abc_model 13 = None"
    "isCollapsed abc_model (Some 3) = Inr True" "isCollapsible abc_model (Some 3) = Inr False"
    by (simp_all add: abc_defs run_defs)
  have described: "13 \<in> el_element ` set (el_forest (sequence_of (Some cba_children)))"
    by (simp add: cba_children_def sequence_of_def)
  have plain: "\<forall>d \<in> set (el_forest (sequence_of (Some cba_children))).
                 el_element d = 13 \<longrightarrow> el_collapsible d = None \<and> el_collapsed d = None"
    by (simp add: cba_children_def sequence_of_def)
  have matched: "13 = (3::nat) \<or>
         (nodes abc_model 13 = None \<and>
          (\<exists>getId. identityProvider abc_model = Some getId \<and> nodesByIdentity abc_model (getId 13) = Some 3))"
    by (simp add: abc_defs run_defs)
  have same_key: "key_of 13 = key_of 3"
    by (simp add: key_of_def)
  from collapse_state_preserved [OF well_formed_abc_model run before(1) described plain matched]
  show ?thesis
    using before same_key by auto
qed

text \<open>
  C2. The element of a new description has an existing node, found by reference or, failing
  that, by identity key, and every description of that element sets the same flags. After a
  successful \<open>setChildren\<close> a flag that the description sets is the flag of the element, and a
  flag that it leaves out is the one the existing node had before the call. In particular
  \<open>collapsed = true\<close> for a node that had \<open>collapsed = false\<close> gives \<open>true\<close>.
\<close>

theorem override_precedence:
  assumes "well_formed m"
    and "setChildren el chn onCreate onDelete (m, u) = (Inr (), m', u')"
    and "nodes m e = Some k"
    and "d \<in> set (el_forest (sequence_of chn))"
    and "\<forall>d' \<in> set (el_forest (sequence_of chn)).
           el_element d' = el_element d \<longrightarrow>
           el_collapsible d' = el_collapsible d \<and> el_collapsed d' = el_collapsed d"
    and "el_element d = e \<or>
         (nodes m (el_element d) = None \<and>
          (\<exists>getId. identityProvider m = Some getId \<and>
                   nodesByIdentity m (getId (el_element d)) = Some k))"
  shows "\<exists>cd cb. isCollapsed m (Some e) = Inr cd \<and> isCollapsible m (Some e) = Inr cb \<and>
           isCollapsed m' (Some (el_element d)) =
             Inr (case el_collapsed d of Some b \<Rightarrow> b | None \<Rightarrow> cd) \<and>
           isCollapsible m' (Some (el_element d)) =
             Inr (case el_collapsible d of Some b \<Rightarrow> b | None \<Rightarrow> cb)"
proof -
  from flags_present [OF assms(1,3)] obtain n where
    n: "deref (model m) k = Some n" "isCollapsed m (Some e) = Inr (collapsed n)"
       "isCollapsible m (Some e) = Inr (collapsible n)"
    by blast
  have ex: "existing_node m (el_element d) = Some n"
    using assms(3,6) n(1) by (auto simp: existing_node_def)
  have u: "\<forall>d' \<in> set (el_forest (sequence_of chn)). el_element d' = el_element d \<longrightarrow> el_key d' = el_key d"
    using assms(5) by (simp add: el_key_def)
  from flags_after_setChildren [OF assms(1,2,4) u] ex n(2,3) show ?thesis
    by (simp split: option.splits)
qed

theorem override_precedence_witness:
  "default_collapsed (model abc_model) = False \<and>
   isCollapsed abc_model (Some 1) = Inr False \<and>
   isCollapsed abc_model (Some 3) = Inr True \<and>
   isCollapsible abc_model (Some 3) = Inr False \<and>
   nodes abc_model 13 = None \<and> key_of 13 = key_of 3 \<and>
   isCollapsed (fst (snd (setChildren None (Some override_children) None None (abc_model, ())))) (Some 1) = Inr True \<and>
   isCollapsible (fst (snd (setChildren None (Some override_children) None None (abc_model, ())))) (Some 1) = Inr False \<and>
   isCollapsed (fst (snd (setChildren None (Some override_children) None None (abc_model, ())))) (Some 13) = Inr True \<and>
   isCollapsible (fst (snd (setChildren None (Some override_children) None None (abc_model, ())))) (Some 13) = Inr True"
proof -
  let ?m' = "fst (snd (setChildren None (Some override_children) None None (abc_model, ())))"
  have run: "setChildren None (Some override_children) None None (abc_model, ()) =
               (Inr (), ?m', snd (snd (setChildren None (Some override_children) None None (abc_model, ()))))"
    by (rule setChildren_root [OF well_formed_abc_model])
  have before: "default_collapsed (model abc_model) = False"
    "isCollapsed abc_model (Some 1) = Inr False" "isCollapsed abc_model (Some 3) = Inr True"
    "isCollapsible abc_model (Some 1) = Inr False" "isCollapsible abc_model (Some 3) = Inr False"
    "nodes abc_model 1 = Some 1" "nodes abc_model 3 = Some 3" "nodes abc_model 13 = None"
    by (simp_all add: abc_defs run_defs)
  have same_key: "key_of 13 = key_of 3"
    by (simp add: key_of_def)
  have d1: "TreeElement 1 None (Some True) [] \<in> set (el_forest (sequence_of (Some override_children)))"
    and d2: "TreeElement 13 (Some True) None [] \<in> set (el_forest (sequence_of (Some override_children)))"
    by (simp_all add: override_children_def sequence_of_def)
  have u1: "\<forall>d' \<in> set (el_forest (sequence_of (Some override_children))).
              el_element d' = el_element (TreeElement 1 None (Some True) []) \<longrightarrow>
              el_collapsible d' = el_collapsible (TreeElement 1 None (Some True) []) \<and>
              el_collapsed d' = el_collapsed (TreeElement 1 None (Some True) [])"
    and u2: "\<forall>d' \<in> set (el_forest (sequence_of (Some override_children))).
              el_element d' = el_element (TreeElement 13 (Some True) None []) \<longrightarrow>
              el_collapsible d' = el_collapsible (TreeElement 13 (Some True) None []) \<and>
              el_collapsed d' = el_collapsed (TreeElement 13 (Some True) None [])"
    by (simp_all add: override_children_def sequence_of_def)
  have by_reference: "el_element (TreeElement 1 None (Some True) []) = 1 \<or>
      (nodes abc_model (el_element (TreeElement 1 None (Some True) [])) = None \<and>
       (\<exists>getId. identityProvider abc_model = Some getId \<and>
                nodesByIdentity abc_model (getId (el_element (TreeElement 1 None (Some True) []))) = Some 1))"
    by simp
  have by_identity: "el_element (TreeElement 13 (Some True) None []) = 3 \<or>
      (nodes abc_model (el_element (TreeElement 13 (Some True) None [])) = None \<and>
       (\<exists>getId. identityProvider abc_model = Some getId \<and>
                nodesByIdentity abc_model (getId (el_element (TreeElement 13 (Some True) None []))) = Some 3))"
    by (simp add: abc_defs run_defs)
  from override_precedence [OF well_formed_abc_model run before(6) d1 u1 by_reference]
       override_precedence [OF well_formed_abc_model run before(7) d2 u2 by_identity]
  show ?thesis
    using before same_key by auto
qed

section \<open>Nodes and their locations\<close>

text \<open>
  C10. \<open>getNodeLocation\<close> undoes \<open>getNode\<close>: for the root sentinel and for every element
  that the model has, the location of the node that \<open>getNode\<close> returns is the element.
\<close>

theorem getNodeLocation_getNode:
  assumes "well_formed m"
  shows "(\<exists>r. getNode m None = Inr r \<and> getNodeLocation r = None) \<and>
         (has m (Some e) \<longrightarrow> (\<exists>n. getNode m (Some e) = Inr n \<and> getNodeLocation n = Some e))"
proof
  show "\<exists>r. getNode m None = Inr r \<and> getNodeLocation r = None"
    by (simp add: getNode_def engine_getNode_def engine_result_def root_node_def getNodeLocation_def)
  show "has m (Some e) \<longrightarrow> (\<exists>n. getNode m (Some e) = Inr n \<and> getNodeLocation n = Some e)"
  proof
    assume "has m (Some e)"
    then obtain k where "nodes m e = Some k"
      by (auto simp: has_def)
    from flags_present [OF assms this] show "\<exists>n. getNode m (Some e) = Inr n \<and> getNodeLocation n = Some e"
      by (auto simp: getNodeLocation_def)
  qed
qed

theorem getNodeLocation_getNode_witness:
  "getNode abc_model None = Inr (Node 0 None False False
      [Node 1 (Some 1) False False [], Node 2 (Some 2) False False [], Node 3 (Some 3) False True []])
   \<and> has abc_model (Some 2) \<and> getNode abc_model (Some 2) = Inr (Node 2 (Some 2) False False [])
   \<and> getNodeLocation (Node 2 (Some 2) False False []) = Some (2::nat)"
proof -
  have h: "has abc_model (Some 2)"
    by (simp add: abc_model_def identity_model_def run_defs)
  have g: "getNode abc_model (Some 2) = Inr (Node 2 (Some 2) False False [])"
    by (simp add: abc_model_def identity_model_def run_defs)
  have r: "getNode abc_model None = Inr (Node 0 None False False
      [Node 1 (Some 1) False False [], Node 2 (Some 2) False False [], Node 3 (Some 3) False True []])"
    by (simp add: abc_model_def identity_model_def run_defs)
  show ?thesis
    using getNodeLocation_getNode [OF well_formed_abc_model, of 2] h g r
    by (simp add: getNodeLocation_def)
qed

section \<open>Clearing and replacing children\<close>

text \<open>
  C9. \<open>setChildren\<close> with \<open>undefined\<close> for the root or for an element the model has:
  the call succeeds; the path it works at is that of the node \<open>getNode\<close> returns for the
  element; this node has no children afterwards and the tree is otherwise as it was; the
  caller's deletion callback has run once on each node of the removed subtrees (which are
  pairwise different nodes); and the model has none of their elements any more.
\<close>

theorem setChildren_undefined_clears:
  assumes "well_formed m" and "el = None \<or> has m el"
  shows "\<exists>location p cs m' u'.
           getElementLocation m el = Inr location \<and>
           getNode m el = Inr p \<and> element p = el \<and>
           engine_getNode (model m) location = Some p \<and>
           children_at (root_children (model m)) location = Some cs \<and>
           children p = map (map_node Some) cs \<and>
           setChildren el None onCreate onDelete (m, u) = (Inr (), m', u') \<and>
           engine_getNode (model m') location =
             Some (Node (nid p) el (collapsible p) (collapsed p) []) \<and>
           children_at (root_children (model m')) location = Some [] \<and>
           replace_children location [] (root_children (model m')) =
             replace_children location [] (root_children (model m)) \<and>
           distinct (forest cs) \<and>
           u' = fold (callback_of onDelete) (forest cs) u \<and>
           (\<forall>c \<in> set (forest cs). \<not> has m' (Some (element c)))"
proof -
  from has_present [OF assms] obtain location where
    l: "getElementLocation m el = Inr location"
    by blast
  from located_node [OF assms(1) l] obtain p cs where
    p: "getNode m el = Inr p" "element p = el" "engine_getNode (model m) location = Some p"
       "children_at (root_children (model m)) location = Some cs" "children p = map (map_node Some) cs"
    by blast
  let ?m' = "spliced m location cs []"
  have run: "setChildren el None onCreate onDelete (m, u) =
               (Inr (), ?m', user_after (callback_order (model m)) onCreate onDelete [] (forest cs) u)"
    using l by (simp add: setChildren_def sequence_of_def priv_setChildren_spliced [OF p(4)] new_nodes_def)
  have usr: "user_after (callback_order (model m)) onCreate onDelete [] (forest cs) u =
               fold (callback_of onDelete) (forest cs) u"
    by (cases "callback_order (model m)") (simp_all add: user_after_def)
  have emp: "engine_getNode (model ?m') location = Some (Node (nid p) el (collapsible p) (collapsed p) [])"
    using located_after [OF p(3), of cs "[]"] p(2) by (simp add: new_nodes_def)
  have emp': "children_at (root_children (model ?m')) location = Some []"
    using children_at_replace [OF p(4), of "[]"] by (simp add: new_nodes_def)
  have f: "replace_children location [] (root_children (model ?m')) =
           replace_children location [] (root_children (model m))"
    by (simp add: replace_children_twice)
  have dis: "distinct (forest cs)"
    using forest_nids_sub [OF p(4)] assms(1) by (auto simp: well_formed_def intro: distinct_map_nid)
  have gone: "\<not> has ?m' (Some (element c))" if "c \<in> set (forest cs)" for c
    using that by (simp add: has_def index_after_def new_nodes_def)
  from l p run usr emp emp' f dis gone show ?thesis
    by blast
qed

theorem setChildren_undefined_clears_witness:
  "has lineage_model (Some 10) \<and>
   getElementLocation lineage_model (Some 10) = Inr [1] \<and>
   root_children (model lineage_model) =
     [Node 1 20 False False [],
      Node 2 10 False False
        [Node 3 4 False False [Node 4 8 False False [], Node 5 7 False False []],
         Node 6 3 False False [Node 7 6 False False [], Node 8 5 False False []]]] \<and>
   fst (setChildren (Some 10) None None (Some count_call) (lineage_model, 0)) = Inr () \<and>
   root_children (model (fst (snd (setChildren (Some 10) None None (Some count_call) (lineage_model, 0))))) =
     [Node 1 20 False False [], Node 2 10 False False []] \<and>
   snd (snd (setChildren (Some 10) None None (Some count_call) (lineage_model, 0))) = 6 \<and>
   \<not> has (fst (snd (setChildren (Some 10) None None (Some count_call) (lineage_model, 0)))) (Some 4) \<and>
   \<not> has (fst (snd (setChildren (Some 10) None None (Some count_call) (lineage_model, 0)))) (Some 7)"
proof -
  have h: "has lineage_model (Some 10)"
    by (simp add: has_def lineage_nodes)
  from setChildren_undefined_clears [of lineage_model "Some 10" None "Some count_call" 0,
      OF well_formed_lineage_model] h
  obtain location p cs m' u' where r:
    "getElementLocation lineage_model (Some 10) = Inr location"
    "children_at (root_children (model lineage_model)) location = Some cs"
    "setChildren (Some 10) None None (Some count_call) (lineage_model, 0) = (Inr (), m', u')"
    "children_at (root_children (model m')) location = Some []"
    "replace_children location [] (root_children (model m')) =
       replace_children location [] (root_children (model lineage_model))"
    "u' = fold (callback_of (Some count_call)) (forest cs) 0"
    "\<forall>c \<in> set (forest cs). \<not> has m' (Some (element c))"
    by blast
  from r(1) have l: "location = [1]"
    by (simp add: lineage_location)
  from r(2) have cs: "cs = [Node 3 4 False False [Node 4 8 False False [], Node 5 7 False False []],
                            Node 6 3 False False [Node 7 6 False False [], Node 8 5 False False []]]"
    by (simp add: l lineage_tree)
  from r(5) have "replace_children [1] [] (root_children (model m')) =
                    [Node 1 20 False False [], Node 2 10 False False []]"
    by (simp add: l lineage_tree)
  from tree_from_frame [OF r(4) [unfolded l] this]
  have t: "root_children (model m') = [Node 1 20 False False [], Node 2 10 False False []]"
    by simp
  from r(6) have c: "u' = 6"
    by (simp add: cs callback_of_def count_call_def)
  from r(7) have g: "\<not> has m' (Some 4)" "\<not> has m' (Some 7)"
    by (simp_all add: cs)
  from h t c g show ?thesis
    by (simp add: r(3) lineage_location lineage_tree)
qed

text \<open>
  C3. After a successful \<open>setChildren\<close>, an identity key that one of the new descriptions
  has is mapped by the identity index to a node of the new tree with that key, and this node
  was not in the tree before the call; the same holds for an element of a new description
  and the element index. The deletion callback leaves the identity entry of a staged key,
  and the element entry of a staged element, as they are.
\<close>

theorem staged_eviction:
  assumes "well_formed m" and "setChildren el chn onCreate onDelete (m, u) = (Inr (), m', u')"
  shows "(identityProvider m = Some getId \<and>
            k \<in> (\<lambda>d. getId (el_element d)) ` set (el_forest (sequence_of chn)) \<longrightarrow>
            (\<exists>n \<in> set (forest (root_children (model m'))).
               getId (element n) = k \<and> nodesByIdentity m' k = Some (nid n) \<and>
               nid n \<notin> nid ` set (forest (root_children (model m))))) \<and>
         (e \<in> el_element ` set (el_forest (sequence_of chn)) \<longrightarrow>
            (\<exists>n \<in> set (forest (root_children (model m'))).
               element n = e \<and> nodes m' e = Some (nid n) \<and>
               nid n \<notin> nid ` set (forest (root_children (model m))))) \<and>
         (getId' (element n) \<in> insertedElementIds s \<longrightarrow>
            st_nodesByIdentity (priv_onDidDeleteNode (Some getId') onDelete n s) = st_nodesByIdentity s) \<and>
         (element n \<in> insertedElements s \<longrightarrow>
            st_nodes (priv_onDidDeleteNode idp onDelete n s) = st_nodes s)"
proof -
  let ?chn = "preserveCollapseState m (sequence_of chn)"
  from setChildren_success [OF assms] obtain location cs where
    l: "children_at (root_children (model m)) location = Some cs" "m' = spliced m location cs ?chn"
    by blast
  have ids: "\<exists>n \<in> set (forest (root_children (model m'))).
               getId (element n) = k \<and> nodesByIdentity m' k = Some (nid n) \<and>
               nid n \<notin> nid ` set (forest (root_children (model m)))"
    if "identityProvider m = Some getId"
      and "k \<in> (\<lambda>d. getId (el_element d)) ` set (el_forest (sequence_of chn))"
  proof -
    from that(2) obtain d where d: "d \<in> set (el_forest (sequence_of chn))" "k = getId (el_element d)"
      by auto
    then have "el_element d \<in> element ` set (forest (new_nodes m ?chn))"
      unfolding created_elements_set by simp
    then obtain c where "c \<in> set (forest (new_nodes m ?chn))" "element c = el_element d"
      by auto
    with d(2) have mem: "k \<in> (\<lambda>n. getId (element n)) ` set (forest (new_nodes m ?chn))"
      by (simp add: image_iff) metis
    have kl: "\<And>a b :: 'a node. node_label a = node_label b \<Longrightarrow> getId (element a) = getId (element b)"
      by (simp add: node_label_def)
    have idx: "nodesByIdentity (spliced m location cs ?chn) =
        index_after (\<lambda>n. getId (element n)) (forest (new_nodes m ?chn)) (forest cs) (nodesByIdentity m)"
      using that(1) by (simp add: spliced_def)
    show ?thesis
      using new_entry [OF assms(1) l(1) mem kl, of "nodesByIdentity m"]
      unfolding l(2) idx by simp
  qed
  have els: "\<exists>n \<in> set (forest (root_children (model m'))).
               element n = e \<and> nodes m' e = Some (nid n) \<and>
               nid n \<notin> nid ` set (forest (root_children (model m)))"
    if "e \<in> el_element ` set (el_forest (sequence_of chn))"
  proof -
    from that have mem: "e \<in> element ` set (forest (new_nodes m ?chn))"
      unfolding created_elements_set .
    have kl: "\<And>a b :: 'a node. node_label a = node_label b \<Longrightarrow> element a = element b"
      by (simp add: node_label_def)
    show ?thesis
      using new_entry [OF assms(1) l(1) mem kl, of "nodes m"]
      unfolding l(2) by simp
  qed
  from ids els show ?thesis
    by (simp add: delete_step)
qed

theorem staged_eviction_witness:
  "nodesByIdentity abc_model ''c'' = Some 3 \<and> nodes abc_model 2 = Some 2 \<and>
   nodesByIdentity cba_model ''c'' = Some 4 \<and> nodes cba_model 2 = Some 5 \<and>
   st_nodesByIdentity (priv_onDidDeleteNode (Some key_of) None (Node 3 3 False True []) staged_state) ''c'' = Some 4 \<and>
   st_nodes (priv_onDidDeleteNode (Some key_of) None (Node 3 13 False True []) staged_state) 13 = Some 4"
proof -
  have run: "setChildren None (Some cba_children) None None (abc_model, ()) = (Inr (), cba_model, ())"
    using setChildren_root [OF well_formed_abc_model, of "Some cba_children" None None "()"]
    by (simp add: cba_model_def)
  have before: "nodesByIdentity abc_model ''c'' = Some 3" "nodes abc_model 2 = Some 2"
    "identityProvider abc_model = Some key_of"
    by (simp_all add: abc_defs run_defs)
  have k: "''c'' \<in> (\<lambda>d. key_of (el_element d)) ` set (el_forest (sequence_of (Some cba_children)))"
    and e: "2 \<in> el_element ` set (el_forest (sequence_of (Some cba_children)))"
    by (simp_all add: cba_children_def sequence_of_def key_of_def)
  have g1: "key_of (element (Node 3 3 False True [])) \<in> insertedElementIds staged_state"
    and g2: "element (Node 3 13 False True []) \<in> insertedElements staged_state"
    by (simp_all add: staged_state_def key_of_def)
  note t = staged_eviction [OF well_formed_abc_model run, of key_of "''c''" 2 key_of "Node 3 3 False True []"
      staged_state None]
  from t before(3) k have "\<exists>n \<in> set (forest (root_children (model cba_model))).
      key_of (element n) = ''c'' \<and> nodesByIdentity cba_model ''c'' = Some (nid n)"
    by blast
  then have a: "nodesByIdentity cba_model ''c'' = Some 4"
    by (auto simp: cba_tree key_of_def)
  from t e have "\<exists>n \<in> set (forest (root_children (model cba_model))).
      element n = 2 \<and> nodes cba_model 2 = Some (nid n)"
    by blast
  then have b: "nodes cba_model 2 = Some 5"
    by (auto simp: cba_tree)
  from t g1 have c: "st_nodesByIdentity (priv_onDidDeleteNode (Some key_of) None (Node 3 3 False True []) staged_state) ''c'' = Some 4"
    by (simp add: staged_state_def)
  from staged_eviction [OF well_formed_abc_model run, of key_of "''c''" 2 key_of "Node 3 13 False True []"
      staged_state "Some key_of"] g2
  have d: "st_nodes (priv_onDidDeleteNode (Some key_of) None (Node 3 13 False True []) staged_state) 13 = Some 4"
    by (simp add: staged_state_def)
  from before a b c d show ?thesis by simp
qed

section \<open>Sorter order of new children\<close>

text \<open>
  A sorter is an ordering (\<open>consistent\<close>) when the sign of a comparison flips as its
  arguments are swapped, and "not after" is transitive.
\<close>

text \<open>
  C5, as amended. On a model with a sorter that is an ordering, the children that the node
  of the target element has after a successful \<open>setChildren\<close> are in non-decreasing order of
  the sorter, and for every element \<open>x\<close> those that compare equal to \<open>x\<close> are in the order in
  which the candidates gave them.
\<close>

theorem setChildren_sorted_stable:
  assumes "well_formed m" and "sorter m = Some cmp" and "consistent cmp"
    and "setChildren el chn onCreate onDelete (m, u) = (Inr (), m', u')"
  shows "\<exists>location p siblings.
           getElementLocation m el = Inr location \<and>
           getNode m el = Inr p \<and> element p = el \<and>
           engine_getNode (model m) location = Some p \<and>
           engine_getNode (model m') location =
             Some (Node (nid p) el (collapsible p) (collapsed p) (map (map_node Some) siblings)) \<and>
           children_at (root_children (model m')) location = Some siblings \<and>
           sorted_wrt (\<lambda>a b. cmp a b \<le> 0) (map element siblings) \<and>
           (\<forall>x. filter (\<lambda>y. cmp x y = 0) (map element siblings) =
                filter (\<lambda>y. cmp x y = 0) (map el_element (sequence_of chn)))"
proof -
  let ?chn = "preserveCollapseState m (sequence_of chn)"
  from setChildren_success [OF assms(1,4)] obtain location cs where
    l: "getElementLocation m el = Inr location"
       "children_at (root_children (model m)) location = Some cs" "m' = spliced m location cs ?chn"
    by blast
  from located_node [OF assms(1) l(1)] obtain p where
    p: "getNode m el = Inr p" "element p = el" "engine_getNode (model m) location = Some p"
    by blast
  have c: "engine_getNode (model m') location =
             Some (Node (nid p) el (collapsible p) (collapsed p) (map (map_node Some) (new_nodes m ?chn)))"
    unfolding l(3) using located_after [OF p(3), of cs ?chn] p(2) by simp
  have c': "children_at (root_children (model m')) location = Some (new_nodes m ?chn)"
    unfolding l(3) using children_at_replace [OF l(2)] by simp
  have "map element (new_nodes m ?chn) =
        map el_element (mergeSort (\<lambda>a b. cmp (el_element a) (el_element b)) (sequence_of chn))"
    by (simp add: new_nodes_roots preserved_roots assms(2))
  then have e: "map element (new_nodes m ?chn) = mergeSort cmp (map el_element (sequence_of chn))"
    by (simp add: map_mergeSort)
  have "sorted_wrt (\<lambda>a b. cmp a b \<le> 0) (map element (new_nodes m ?chn))"
    unfolding e by (rule ordered_mergeSort [OF assms(3)])
  moreover have "filter (\<lambda>y. cmp x y = 0) (map element (new_nodes m ?chn)) =
                 filter (\<lambda>y. cmp x y = 0) (map el_element (sequence_of chn))" for x
    unfolding e by (rule stable_mergeSort [OF assms(3)])
  ultimately show ?thesis
    using l(1) p c c' by blast
qed

theorem setChildren_sorted_stable_witness:
  "has tens_sorted (Some 21) \<and>
   getElementLocation tens_sorted (Some 21) = Inr [2] \<and>
   map el_element more_tens = [35, 31, 42, 33] \<and>
   fst (setChildren (Some 21) (Some more_tens) None None (tens_sorted, ())) = Inr () \<and>
   root_children (model (fst (snd (setChildren (Some 21) (Some more_tens) None None (tens_sorted, ()))))) =
     [Node 1 12 False False [], Node 2 11 False False [],
      Node 3 21 False False
        [Node 5 35 False False [], Node 6 31 False False [], Node 7 33 False False [],
         Node 8 42 False False []],
      Node 4 25 False False []] \<and>
   sorted_wrt (\<lambda>a b. compare_tens a b \<le> 0) [35, 31, 33, 42] \<and>
   filter (\<lambda>y. compare_tens 30 y = 0) [35, 31, 33, 42] = [35, 31, 33]"
proof -
  let ?r = "setChildren (Some 21) (Some more_tens) None None (tens_sorted, ())"
  have h: "has tens_sorted (Some 21)"
    by (simp add: has_def tens_sorted_nodes)
  have run: "?r = (Inr (), fst (snd ?r), snd (snd ?r))"
    by (rule setChildren_present [OF well_formed_tens_sorted tens_sorted_location])
  from setChildren_located [OF well_formed_tens_sorted tens_sorted_location, of "Some more_tens" None None "()"]
  have m': "fst (snd ?r) = spliced tens_sorted [2] [] (preserveCollapseState tens_sorted (sequence_of (Some more_tens)))"
    by (auto simp: tens_sorted_tree)
  have t: "root_children (model (fst (snd ?r))) =
     [Node 1 12 False False [], Node 2 11 False False [],
      Node 3 21 False False
        [Node 5 35 False False [], Node 6 31 False False [], Node 7 33 False False [],
         Node 8 42 False False []],
      Node 4 25 False False []]"
    unfolding m' by (simp add: spliced_def more_tens_nodes tens_sorted_tree)
  from setChildren_sorted_stable [OF well_formed_tens_sorted tens_sorted_fields(1) consistent_compare_tens run]
  obtain location siblings where r:
    "getElementLocation tens_sorted (Some 21) = Inr location"
    "children_at (root_children (model (fst (snd ?r)))) location = Some siblings"
    "sorted_wrt (\<lambda>a b. compare_tens a b \<le> 0) (map element siblings)"
    "\<forall>x. filter (\<lambda>y. compare_tens x y = 0) (map element siblings) =
         filter (\<lambda>y. compare_tens x y = 0) (map el_element (sequence_of (Some more_tens)))"
    by blast
  from r(1) have l: "location = [2]"
    by (simp add: tens_sorted_location)
  from r(2) have s: "map element siblings = [35, 31, 33, 42]"
    unfolding l t by auto
  from r(3) have o: "sorted_wrt (\<lambda>a b. compare_tens a b \<le> 0) [35, 31, 33, 42]"
    unfolding s .
  from r(4) have "filter (\<lambda>y. compare_tens 30 y = 0) [35, 31, 33, 42] =
                  filter (\<lambda>y. compare_tens 30 y = 0) (map el_element (sequence_of (Some more_tens)))"
    unfolding s by blast
  then have f: "filter (\<lambda>y. compare_tens 30 y = 0) [35, 31, 33, 42] = [35, 31, 33]"
    by (simp add: more_tens_def sequence_of_def compare_tens_def)
  have i: "map el_element more_tens = [35, 31, 42, 33]"
    by (simp add: more_tens_def)
  have ok: "fst ?r = Inr ()"
    by (subst run) simp
  from h tens_sorted_location i ok t o f show ?thesis
    by blast
qed

text \<open>
  The claim as stated fails for a sorter that is not an ordering: with a comparison that
  answers "after" for every pair, the first of two new children compares after the second.
\<close>

theorem setChildren_unordered_counterexample:
  "sorter after_model = Some compare_after \<and>
   fst (setChildren None (Some [TreeElement 3 None None [], TreeElement 4 None None []]) None None
          (after_model, ())) = Inr () \<and>
   map element (root_children (model (fst (snd
     (setChildren None (Some [TreeElement 3 None None [], TreeElement 4 None None []]) None None
        (after_model, ()))))))  = [3, 4] \<and>
   0 < compare_after 3 4"
  by (simp add: after_model_def compare_after_def run_defs mergeSort.simps)

section \<open>Resorting in place\<close>

text \<open>
  The examples of this section start from \<open>reordered_model\<close>: a tree that was built while
  the sorter put larger numbers first, under a sorter that now puts smaller numbers first.
  This is the situation \<open>resort\<close> is for: what a sorter answers depends on data of the
  elements that may change while their nodes stay where they are.
\<close>

text \<open>
  C6. On a model with a sorter, \<open>resort(parent, false)\<close> for the root or for an element the
  model has succeeds; the path it works at is that of the node \<open>getNode\<close> returns for the
  parent; the children of this node afterwards are its children before, each with its whole
  subtree as it was (elements, flags and order at every deeper level), in the order
  \<open>Array.prototype.sort\<close> gives them; and the tree without the parent's children is
  unchanged.
\<close>

theorem resort_first_level_only:
  assumes "well_formed m" and "sorter m = Some cmp" and "el = None \<or> has m el"
  shows "\<exists>location p cs cs' m'.
           getElementLocation m el = Inr location \<and>
           getNode m el = Inr p \<and> element p = el \<and>
           engine_getNode (model m) location = Some p \<and>
           children_at (root_children (model m)) location = Some cs \<and>
           children p = map (map_node Some) cs \<and>
           resort el False m = (Inr (), m') \<and>
           engine_getNode (model m') location =
             Some (Node (nid p) el (collapsible p) (collapsed p) (map (map_node Some) cs')) \<and>
           children_at (root_children (model m')) location = Some cs' \<and>
           map describe cs' = map describe (array_sort (\<lambda>a b. cmp (element a) (element b)) cs) \<and>
           mset (map describe cs') = mset (map describe cs) \<and>
           replace_children location [] (root_children (model m')) =
             replace_children location [] (root_children (model m))"
proof -
  from has_present [OF assms(1,3)] obtain location where
    l: "getElementLocation m el = Inr location"
    by blast
  from located_node [OF assms(1) l] obtain p cs0 where
    p: "getNode m el = Inr p" "element p = el" "engine_getNode (model m) location = Some p"
       "children_at (root_children (model m)) location = Some cs0" "children p = map (map_node Some) cs0"
    by blast
  let ?sorted = "array_sort (\<lambda>a b. cmp (element a) (element b)) cs0"
  let ?chn = "resortChildren cmp cs0 False True"
  let ?m' = "spliced m location cs0 ?chn"
  from resort_located [OF assms(1,2) l, of False] p(4)
  have run: "resort el False m = (Inr (), ?m')"
    by auto
  have c: "engine_getNode (model ?m') location =
             Some (Node (nid p) el (collapsible p) (collapsed p) (map (map_node Some) (new_nodes m ?chn)))"
    using located_after [OF p(3), of cs0 ?chn] p(2) by simp
  have c': "children_at (root_children (model ?m')) location = Some (new_nodes m ?chn)"
    using children_at_replace [OF p(4)] by simp
  have d: "map describe (new_nodes m ?chn) = map describe ?sorted"
    by (simp add: new_nodes_def resortChildren_first describe_created_list)
  have "mset (map describe ?sorted) = mset (map describe cs0)"
    by simp
  with d have q: "mset (map describe (new_nodes m ?chn)) = mset (map describe cs0)"
    by simp
  have f: "replace_children location [] (root_children (model ?m')) =
           replace_children location [] (root_children (model m))"
    by (simp add: replace_children_twice)
  from l p run c c' d q f show ?thesis
    by blast
qed

theorem resort_first_level_only_witness:
  "has lineage_reordered (Some 10) \<and>
   getElementLocation lineage_reordered (Some 10) = Inr [1] \<and>
   map describe (root_children (model lineage_reordered)) =
     [TreeElement 20 (Some False) (Some False) [],
      TreeElement 10 (Some False) (Some False)
        [TreeElement 4 (Some False) (Some False)
           [TreeElement 8 (Some False) (Some False) [], TreeElement 7 (Some False) (Some False) []],
         TreeElement 3 (Some False) (Some False)
           [TreeElement 6 (Some False) (Some False) [], TreeElement 5 (Some False) (Some False) []]]] \<and>
   fst (resort (Some 10) False lineage_reordered) = Inr () \<and>
   map describe (root_children (model (snd (resort (Some 10) False lineage_reordered)))) =
     [TreeElement 20 (Some False) (Some False) [],
      TreeElement 10 (Some False) (Some False)
        [TreeElement 3 (Some False) (Some False)
           [TreeElement 6 (Some False) (Some False) [], TreeElement 5 (Some False) (Some False) []],
         TreeElement 4 (Some False) (Some False)
           [TreeElement 8 (Some False) (Some False) [], TreeElement 7 (Some False) (Some False) []]]]"
proof -
  have s: "sorter lineage_reordered = Some compare_nat"
    by (simp add: lineage_reordered_def)
  have t: "root_children (model lineage_reordered) = root_children (model lineage_model)"
    by (simp add: lineage_reordered_def)
  have loc: "getElementLocation lineage_reordered (Some 10) = Inr [1]"
    by (simp add: lineage_reordered_def lineage_location)
  have h: "has lineage_reordered (Some 10)"
    by (simp add: has_def lineage_reordered_def lineage_nodes)
  from resort_first_level_only [of lineage_reordered compare_nat "Some 10",
      OF well_formed_lineage_reordered s] h
  obtain location cs cs' m' where r:
    "getElementLocation lineage_reordered (Some 10) = Inr location"
    "children_at (root_children (model lineage_reordered)) location = Some cs"
    "resort (Some 10) False lineage_reordered = (Inr (), m')"
    "children_at (root_children (model m')) location = Some cs'"
    "map describe cs' = map describe (array_sort (\<lambda>a b. compare_nat (element a) (element b)) cs)"
    "replace_children location [] (root_children (model m')) =
       replace_children location [] (root_children (model lineage_reordered))"
    by blast
  from r(1) have l: "location = [1]"
    by (simp add: loc)
  from r(2) have cs: "cs = [Node 3 4 False False [Node 4 8 False False [], Node 5 7 False False []],
                            Node 6 3 False False [Node 7 6 False False [], Node 8 5 False False []]]"
    by (simp add: l t lineage_tree)
  from r(5) have d: "map describe cs' =
      [TreeElement 3 (Some False) (Some False)
         [TreeElement 6 (Some False) (Some False) [], TreeElement 5 (Some False) (Some False) []],
       TreeElement 4 (Some False) (Some False)
         [TreeElement 8 (Some False) (Some False) [], TreeElement 7 (Some False) (Some False) []]]"
    by (simp add: cs array_sort_def compare_nat_def)
  from r(6) have "replace_children [1] [] (root_children (model m')) =
                    [Node 1 20 False False [], Node 2 10 False False []]"
    by (simp add: l t lineage_tree)
  from tree_from_frame [OF r(4) [unfolded l] this]
  have "root_children (model m') = [Node 1 20 False False [], Node 2 10 False False cs']"
    by simp
  with d have "map describe (root_children (model m')) =
     [TreeElement 20 (Some False) (Some False) [],
      TreeElement 10 (Some False) (Some False)
        [TreeElement 3 (Some False) (Some False)
           [TreeElement 6 (Some False) (Some False) [], TreeElement 5 (Some False) (Some False) []],
         TreeElement 4 (Some False) (Some False)
           [TreeElement 8 (Some False) (Some False) [], TreeElement 7 (Some False) (Some False) []]]]"
    by simp
  with h loc show ?thesis
    by (simp add: r(3) t lineage_tree)
qed




section \<open>The indices and the tree\<close>

text \<open>
  \<open>index_exact\<close>: the model is well formed, every node of the tree other than the root
  sentinel is the entry of its element in the element index, every entry of that index is
  such a node, and the same holds for the identity index with the identity keys when an
  identity provider is configured. A new model satisfies it (\<open>index_exact_new_model\<close>).
\<close>

text \<open>
  C4, as amended. On a model whose indices are exact, a successful \<open>setChildren\<close> leaves
  them exact, and \<open>size\<close> is the number of nodes other than the root sentinel, provided
  that no element occurs in two of the new descriptions or in a new description and in a
  node that stays in the tree, and likewise for identity keys when an identity provider is
  configured; a successful \<open>resort\<close> does so without any proviso.
\<close>

theorem index_exact_preserved:
  assumes "index_exact m"
  shows "(setChildren el chn onCreate onDelete (m, u) = (Inr (), m', u') \<and>
          getElementLocation m el = Inr location \<and>
          children_at (root_children (model m)) location = Some cs \<and>
          unique_keys (\<lambda>x. x) (sequence_of chn) (forest (root_children (model m))) (forest cs) \<and>
          (\<forall>getId. identityProvider m = Some getId \<longrightarrow>
             unique_keys getId (sequence_of chn) (forest (root_children (model m))) (forest cs)) \<longrightarrow>
          index_exact m' \<and> size_of m' = length (forest (root_children (model m')))) \<and>
         (resort el recursive m = (Inr (), m'') \<longrightarrow>
          index_exact m'' \<and> size_of m'' = length (forest (root_children (model m''))))"
proof (intro conjI impI)
  from assms have w: "well_formed m"
    by (simp add: index_exact_def)
  {
    assume a: "setChildren el chn onCreate onDelete (m, u) = (Inr (), m', u') \<and>
          getElementLocation m el = Inr location \<and>
          children_at (root_children (model m)) location = Some cs \<and>
          unique_keys (\<lambda>x. x) (sequence_of chn) (forest (root_children (model m))) (forest cs) \<and>
          (\<forall>getId. identityProvider m = Some getId \<longrightarrow>
             unique_keys getId (sequence_of chn) (forest (root_children (model m))) (forest cs))"
    let ?chn = "preserveCollapseState m (sequence_of chn)"
    from setChildren_located [OF w, of el location chn onCreate onDelete u] a
    have m': "m' = spliced m location cs ?chn"
      by auto
    have "index_exact (spliced m location cs ?chn)"
      using a by (intro index_exact_unique [OF assms _ preserved_elements]) simp_all
    then show "index_exact m'"
      by (simp only: m')
    then show "size_of m' = length (forest (root_children (model m')))"
      by (rule size_exact)
  }
  {
    assume r: "resort el recursive m = (Inr (), m'')"
    have "index_exact m''"
    proof (cases "sorter m")
      case None
      with r assms show ?thesis by (simp add: resort_def)
    next
      case (Some cmp)
      from r Some obtain location where l: "getElementLocation m el = Inr location"
        by (cases "getElementLocation m el") (auto simp: resort_def)
      from resort_located [OF w Some l, of recursive] r obtain cs where
        cs: "children_at (root_children (model m)) location = Some cs"
            "m'' = spliced m location cs (resortChildren cmp cs recursive True)"
        by auto
      show ?thesis
        unfolding cs(2) by (rule index_exact_resorted [OF assms cs(1) resorted_elements])
    qed
    then show "index_exact m''" .
    then show "size_of m'' = length (forest (root_children (model m'')))"
      by (rule size_exact)
  }
qed

theorem index_exact_preserved_witness:
  "index_exact abc_model \<and> size_of abc_model = 3 \<and>
   index_exact (snd (resort None False reordered_model)) \<and>
   size_of (snd (resort None False reordered_model)) = 6"
proof -
  have w0: "well_formed identity_model"
    unfolding identity_model_def by (rule well_formed_new_model)
  have w1: "well_formed (new_model ''tree'' False False DeletionsFirst (Some compare_rev) None :: nat object_tree_model)"
    by (rule well_formed_new_model)
  have run: "setChildren None
      (Some [TreeElement 1 None None [], TreeElement 2 None None [], TreeElement 3 None (Some True) []])
      None None (identity_model, ()) = (Inr (), abc_model, ())"
    using setChildren_root [OF w0,
        of "Some [TreeElement 1 None None [], TreeElement 2 None None [], TreeElement 3 None (Some True) []]"
        None None "()"]
    by (simp add: abc_model_def)
  have loc: "getElementLocation identity_model None = Inr []"
    "children_at (root_children (model identity_model)) [] = Some []"
    by (simp_all add: getElementLocation_def identity_model_def new_model_def)
  have u1: "unique_keys (\<lambda>x. x)
      (sequence_of (Some [TreeElement 1 None None [], TreeElement 2 None None [],
                          TreeElement 3 None (Some True) []]))
      (forest (root_children (model identity_model))) (forest [])"
    by (simp add: unique_keys_def sequence_of_def identity_model_def new_model_def)
  have u2: "\<forall>getId. identityProvider identity_model = Some getId \<longrightarrow>
      unique_keys getId
      (sequence_of (Some [TreeElement 1 None None [], TreeElement 2 None None [],
                          TreeElement 3 None (Some True) []]))
      (forest (root_children (model identity_model))) (forest [])"
    by (simp add: unique_keys_def sequence_of_def identity_model_def new_model_def key_of_def)
  have e0: "index_exact identity_model"
    unfolding identity_model_def by (rule index_exact_new_model)
  from index_exact_preserved [OF e0, of None _ None None "()" abc_model "()" "[]" "[]"] run loc u1 u2
  have a: "index_exact abc_model \<and> size_of abc_model = length (forest (root_children (model abc_model)))"
    by blast
  have s: "size_of abc_model = 3"
    using a by (simp add: abc_tree)
  have run2: "setChildren None (Some family) None None
      (new_model ''tree'' False False DeletionsFirst (Some compare_rev) None, ()) =
      (Inr (), descending_model, ())"
    using setChildren_root [OF w1, of "Some family" None None "()"]
    by (simp add: descending_model_def)
  have loc2: "getElementLocation (new_model ''tree'' False False DeletionsFirst (Some compare_rev) None) None = Inr []"
    "children_at (root_children (model (new_model ''tree'' False False DeletionsFirst (Some compare_rev) None))) [] = Some []"
    by (simp_all add: getElementLocation_def new_model_def)
  have u3: "unique_keys (\<lambda>x. x) (sequence_of (Some family))
      (forest (root_children (model (new_model ''tree'' False False DeletionsFirst (Some compare_rev) None))))
      (forest [])"
    by (simp add: unique_keys_def sequence_of_def family_def new_model_def)
  have u4: "\<forall>getId. identityProvider (new_model ''tree'' False False DeletionsFirst (Some compare_rev) None) = Some getId \<longrightarrow>
      unique_keys getId (sequence_of (Some family))
      (forest (root_children (model (new_model ''tree'' False False DeletionsFirst (Some compare_rev) None))))
      (forest [])"
    by (simp add: new_model_def)
  have e1: "index_exact (new_model ''tree'' False False DeletionsFirst (Some compare_rev) None :: nat object_tree_model)"
    by (rule index_exact_new_model)
  from index_exact_preserved [OF e1, of None "Some family" None None "()"
      descending_model "()" "[]" "[]"] run2 loc2 u3 u4
  have "index_exact descending_model"
    by blast
  then have e2: "index_exact reordered_model"
    by (simp add: reordered_model_def)
  have run3: "resort None False reordered_model = (Inr (), snd (resort None False reordered_model))"
    by (simp add: resort_root_tree [OF well_formed_reordered_model reordered_sorter])
  have b: "index_exact (snd (resort None False reordered_model)) \<and>
           size_of (snd (resort None False reordered_model)) =
             length (forest (root_children (model (snd (resort None False reordered_model)))))"
    by (rule index_exact_preserved [OF e2, THEN conjunct2, THEN mp, OF run3])
  have "size_of (snd (resort None False reordered_model)) = 6"
    using b reordered_resorted_size
    by (simp add: resort_root_tree [OF well_formed_reordered_model reordered_sorter])
  with a s b show ?thesis by simp
qed

text \<open>
  The claim as stated fails: with the same element in two descriptions the tree gets two
  nodes, the element index one entry (for the second), and \<open>size\<close> is 1; with two elements
  of one identity key the identity index holds the second node only.
\<close>

theorem index_exact_counterexample:
  "fst (setChildren None (Some twins) None None (empty_unsorted, ())) = Inr () \<and>
   root_children (model twins_model) = [Node 1 7 False False [], Node 2 7 False False []] \<and>
   nodes twins_model 7 = Some 2 \<and> size_of twins_model = 1 \<and>
   fst (setChildren None (Some same_key) None None (identity_model, ())) = Inr () \<and>
   root_children (model same_key_model) = [Node 1 1 False False [], Node 2 11 False False []] \<and>
   key_of 1 = ''a'' \<and> nodesByIdentity same_key_model ''a'' = Some 2"
  by (simp add: twins_model_def twins_def same_key_model_def same_key_def empty_unsorted_def
      identity_model_def key_of_def run_defs size_of_def)

end
